theory Spec2Isabelle
  imports Main "HOL-Library.Sublist"
begin

section \<open>JavaScript values used by the sources\<close>

text \<open>
  An optional string field of a JavaScript object is a \<open>string option\<close>: \<open>None\<close> stands
  for \<open>undefined\<close> and \<open>null\<close>. A numeric field is an \<open>int option\<close>: \<open>None\<close> stands for
  \<open>undefined\<close>, \<open>null\<close> and \<open>NaN\<close>. The two functions below are the truthiness test that
  \<open>if (x)\<close>, \<open>!x\<close> and \<open>x || y\<close> apply to such a field.
\<close>

definition truthy_str :: "string option \<Rightarrow> bool" where
  "truthy_str v = (case v of None \<Rightarrow> False | Some s \<Rightarrow> s \<noteq> [])"

definition truthy_num :: "int option \<Rightarrow> bool" where
  "truthy_num v = (case v of None \<Rightarrow> False | Some n \<Rightarrow> n \<noteq> 0)"

section \<open>auth/token-manager.js\<close>

subsection \<open>The credential record and the module state\<close>

record tokens =
  access_token :: "string option"
  refresh_token :: "string option"
  expires_in :: "int option"
  expires_at :: "int option"
  scope :: "string option"

text \<open>\<open>REFRESH_BUFFER_MS = 5 * 60 * 1000\<close>\<close>

definition REFRESH_BUFFER_MS :: int where
  "REFRESH_BUFFER_MS = 5 * 60 * 1000"

text \<open>
  \<open>needsRefresh()\<close> reads the module variable \<open>cachedTokens\<close> and the clock \<open>Date.now()\<close>;
  both are arguments here.
\<close>

definition needsRefresh :: "int \<Rightarrow> tokens option \<Rightarrow> bool" where
  "needsRefresh now cached =
     (case cached of
        None \<Rightarrow> True
      | Some t \<Rightarrow>
          if \<not> truthy_num (expires_at t) then True
          else now \<ge> the (expires_at t) - REFRESH_BUFFER_MS)"

subsection \<open>The token file\<close>

text \<open>
  What \<open>loadTokenCache\<close> can find at \<open>config.AUTH_CONFIG.tokenStorePath\<close>: no file, a file
  that cannot be read (\<open>statSync\<close> or \<open>readFileSync\<close> throws), text that \<open>JSON.parse\<close> rejects,
  or a JSON object, given by the five fields the module reads.
\<close>

datatype token_file = NoFile | Unreadable | Malformed | Contents tokens

subsection \<open>The reply of the token endpoint\<close>

text \<open>
  \<open>JSON.parse(data)\<close> throws (\<open>ParseError\<close>), yields \<open>null\<close> (\<open>JsonNull\<close>: every property
  access on it throws a TypeError), or yields a value whose properties can be read
  (\<open>JsonObject\<close>; a property that is not there reads as \<open>undefined\<close>).
\<close>

record token_response =
  r_access_token :: "string option"
  r_refresh_token :: "string option"
  r_expires_in :: "int option"
  r_scope :: "string option"
  r_error_description :: "string option"

datatype response_body = ParseError | JsonNull | JsonObject token_response

record http_response =
  statusCode :: int
  body :: response_body

subsection \<open>Module state and pending calls\<close>

text \<open>
  The module variables are \<open>cachedTokens\<close> and \<open>refreshPromise\<close>. A promise is named by the
  number of the renewal request it wraps. \<open>created\<close> counts the \<open>https.request\<close> calls made
  so far, \<open>inflight\<close> holds the requests that have had neither their \<open>end\<close> nor their
  \<open>error\<close> event, \<open>waiting\<close> holds the calls of \<open>getAccessToken\<close> suspended at
  \<open>await refreshAccessToken()\<close> with the promise each awaits, and \<open>finished\<close> holds the
  calls that have completed, with their outcome.
\<close>

datatype call_result = Returned "string option" | Threw

record tm_state =
  cachedTokens :: "tokens option"
  refreshPromise :: "nat option"
  tokenFile :: token_file
  fsWritable :: bool
  created :: nat
  inflight :: "nat list"
  waiting :: "(nat \<times> nat) list"
  finished :: "(nat \<times> call_result) list"

definition loadTokenCache :: "tm_state \<Rightarrow> tokens option \<times> tm_state" where
  "loadTokenCache s =
     (case tokenFile s of
        NoFile \<Rightarrow> (None, s)
      | Unreadable \<Rightarrow> (None, s)
      | Malformed \<Rightarrow> (None, s)
      | Contents t \<Rightarrow>
          if \<not> truthy_str (access_token t) then (None, s)
          else (Some t, s\<lparr>cachedTokens := Some t\<rparr>))"

definition saveTokenCache :: "tokens \<Rightarrow> tm_state \<Rightarrow> bool \<times> tm_state" where
  "saveTokenCache t s =
     (if fsWritable s then (True, s\<lparr>tokenFile := Contents t, cachedTokens := Some t\<rparr>)
      else (False, s))"

datatype refresh_call = NoRefreshToken | Pending nat

text \<open>
  \<open>refreshAccessToken\<close> up to its \<open>return refreshPromise\<close>: it throws when there is no
  refresh token, hands out the promise in the slot when there is one, and otherwise creates
  the request and its promise and stores the promise in the slot.
\<close>

definition refreshAccessToken :: "tm_state \<Rightarrow> refresh_call \<times> tm_state" where
  "refreshAccessToken s =
     (case cachedTokens s of
        None \<Rightarrow> (NoRefreshToken, s)
      | Some t \<Rightarrow>
          if \<not> truthy_str (refresh_token t) then (NoRefreshToken, s)
          else
            (case refreshPromise s of
               Some p \<Rightarrow> (Pending p, s)
             | None \<Rightarrow>
                 (Pending (created s),
                  s\<lparr>refreshPromise := Some (created s),
                    created := Suc (created s),
                    inflight := inflight s @ [created s]\<rparr>)))"

text \<open>
  A call of \<open>getAccessToken\<close> that was suspended at the \<open>await\<close> continues when the promise
  settles: a rejection is caught and the call returns \<open>null\<close>; after a fulfilment it returns
  \<open>cachedTokens.access_token\<close>, which throws a TypeError should \<open>cachedTokens\<close> be \<open>null\<close>.
\<close>

definition resume :: "bool \<Rightarrow> tm_state \<Rightarrow> call_result" where
  "resume fulfilled s =
     (if fulfilled then
        (case cachedTokens s of None \<Rightarrow> Threw | Some t \<Rightarrow> Returned (access_token t))
      else Returned None)"

definition awaits :: "nat \<Rightarrow> nat \<times> nat \<Rightarrow> bool" where
  "awaits p w = (snd w = p)"

text \<open>
  Settling promise \<open>p\<close>: the continuations of all calls that await it run, in the order in
  which they attached, before any other event is handled.
\<close>

definition settle :: "nat \<Rightarrow> bool \<Rightarrow> tm_state \<Rightarrow> tm_state" where
  "settle p fulfilled s =
     s\<lparr>waiting := filter (\<lambda>w. \<not> awaits p w) (waiting s),
       finished := finished s @
         map (\<lambda>w. (fst w, resume fulfilled s)) (filter (awaits p) (waiting s))\<rparr>"

definition merge_response :: "int \<Rightarrow> token_response \<Rightarrow> tokens \<Rightarrow> tokens" where
  "merge_response now b t =
     t\<lparr>access_token := r_access_token b,
       refresh_token :=
         (if truthy_str (r_refresh_token b) then r_refresh_token b else refresh_token t),
       expires_in := r_expires_in b,
       expires_at := map_option (\<lambda>e. now + e * 1000) (r_expires_in b),
       scope := (if truthy_str (r_scope b) then r_scope b else scope t)\<rparr>"

text \<open>The listener of the response's \<open>end\<close> event, for the request of promise \<open>p\<close>.\<close>

definition on_end :: "int \<Rightarrow> http_response \<Rightarrow> nat \<Rightarrow> tm_state \<Rightarrow> tm_state" where
  "on_end now res p s =
     (let s1 = s\<lparr>refreshPromise := None\<rparr> in
      case body res of
        ParseError \<Rightarrow> settle p False s1
      | JsonNull \<Rightarrow> settle p False s1
      | JsonObject b \<Rightarrow>
          if 200 \<le> statusCode res \<and> statusCode res < 300 then
            (case cachedTokens s1 of
               None \<Rightarrow> settle p False s1
             | Some t \<Rightarrow>
                 let t' = merge_response now b t;
                     s2 = snd (saveTokenCache t' (s1\<lparr>cachedTokens := Some t'\<rparr>))
                 in settle p True s2)
          else settle p False s1)"

text \<open>The listener of the request's \<open>error\<close> event.\<close>

definition on_error :: "nat \<Rightarrow> tm_state \<Rightarrow> tm_state" where
  "on_error p s = settle p False (s\<lparr>refreshPromise := None\<rparr>)"

definition finish :: "nat \<Rightarrow> call_result \<Rightarrow> tm_state \<Rightarrow> tm_state" where
  "finish c r s = s\<lparr>finished := finished s @ [(c, r)]\<rparr>"

text \<open>
  \<open>getAccessToken\<close>, called by \<open>c\<close> when the clock reads \<open>now\<close>, up to its return or its
  \<open>await\<close>. The \<open>catch\<close> around the \<open>await\<close> also catches what \<open>refreshAccessToken\<close> throws.
\<close>

definition getAccessToken :: "nat \<Rightarrow> int \<Rightarrow> tm_state \<Rightarrow> tm_state" where
  "getAccessToken c now s =
     (let s1 = (if cachedTokens s = None then snd (loadTokenCache s) else s) in
      case cachedTokens s1 of
        None \<Rightarrow> finish c (Returned None) s1
      | Some t \<Rightarrow>
          if \<not> truthy_str (access_token t) then finish c (Returned None) s1
          else if needsRefresh now (cachedTokens s1) then
            (if truthy_str (refresh_token t) then
               (case refreshAccessToken s1 of
                  (NoRefreshToken, s2) \<Rightarrow> finish c (Returned None) s2
                | (Pending p, s2) \<Rightarrow> s2\<lparr>waiting := waiting s2 @ [(c, p)]\<rparr>)
             else finish c (Returned None) s1)
          else finish c (Returned (access_token t)) s1)"

subsection \<open>The event loop\<close>

text \<open>
  JavaScript runs each of these to completion before the next: a call of \<open>getAccessToken\<close>,
  the \<open>end\<close> or the \<open>error\<close> event of a request in flight (each request has one of the
  two, once), and a call of \<open>saveTokenCache\<close> from outside the module (the authentication
  flow stores a new record this way).
\<close>

datatype event =
    GetAccessToken nat int
  | ResponseEnd nat int http_response
  | RequestError nat
  | SaveTokenCache tokens

definition step :: "tm_state \<Rightarrow> event \<Rightarrow> tm_state" where
  "step s e =
     (case e of
        GetAccessToken c now \<Rightarrow> getAccessToken c now s
      | ResponseEnd p now res \<Rightarrow>
          if p \<in> set (inflight s)
          then on_end now res p (s\<lparr>inflight := removeAll p (inflight s)\<rparr>)
          else s
      | RequestError p \<Rightarrow>
          if p \<in> set (inflight s)
          then on_error p (s\<lparr>inflight := removeAll p (inflight s)\<rparr>)
          else s
      | SaveTokenCache t \<Rightarrow> snd (saveTokenCache t s))"

definition run :: "tm_state \<Rightarrow> event list \<Rightarrow> tm_state" where
  "run s es = foldl step s es"

text \<open>The slot and the requests in flight agree: both empty, or one request and its promise.\<close>

definition single_flight :: "tm_state \<Rightarrow> bool" where
  "single_flight s =
     (case refreshPromise s of None \<Rightarrow> inflight s = [] | Some p \<Rightarrow> inflight s = [p])"

text \<open>A renewal attempt fails on a reply that is not 2xx or whose body cannot be used.\<close>

definition renewal_failed :: "http_response \<Rightarrow> bool" where
  "renewal_failed res =
     (case body res of
        ParseError \<Rightarrow> True
      | JsonNull \<Rightarrow> True
      | JsonObject b \<Rightarrow> \<not> (200 \<le> statusCode res \<and> statusCode res < 300))"

text \<open>The events that settle the promise of request \<open>p\<close>.\<close>

definition settles :: "nat \<Rightarrow> event \<Rightarrow> bool" where
  "settles p e =
     (case e of
        ResponseEnd q now res \<Rightarrow> q = p
      | RequestError q \<Rightarrow> q = p
      | GetAccessToken c now \<Rightarrow> False
      | SaveTokenCache t \<Rightarrow> False)"

text \<open>Calls of \<open>getAccessToken\<close> with no other event between them: caller and clock reading.\<close>

definition calls_of :: "(nat \<times> int) list \<Rightarrow> event list" where
  "calls_of calls = map (\<lambda>call. GetAccessToken (fst call) (snd call)) calls"

text \<open>The record \<open>getAccessToken\<close> works with, after its attempt to load one.\<close>

definition current_tokens :: "tm_state \<Rightarrow> tokens option" where
  "current_tokens s =
     cachedTokens (if cachedTokens s = None then snd (loadTokenCache s) else s)"

text \<open>A fresh module: \<open>cachedTokens = null\<close>, \<open>refreshPromise = null\<close>, nothing requested.\<close>

definition initial :: "token_file \<Rightarrow> bool \<Rightarrow> tm_state" where
  "initial f w =
     \<lparr>cachedTokens = None, refreshPromise = None, tokenFile = f, fsWritable = w,
      created = 0, inflight = [], waiting = [], finished = []\<rparr>"

subsection \<open>Example values\<close>

definition stale :: tokens where
  "stale = \<lparr>access_token = Some ''old'', refresh_token = Some ''r1'', expires_in = Some 3600,
            expires_at = Some 1000, scope = Some ''Mail.Read''\<rparr>"

definition reply_ok :: http_response where
  "reply_ok = \<lparr>statusCode = 200,
     body = JsonObject \<lparr>r_access_token = Some ''new'', r_refresh_token = None,
       r_expires_in = Some 3600, r_scope = None, r_error_description = None\<rparr>\<rparr>"

definition reply_denied :: http_response where
  "reply_denied = \<lparr>statusCode = 400,
     body = JsonObject \<lparr>r_access_token = None, r_refresh_token = None,
       r_expires_in = None, r_scope = None, r_error_description = Some ''invalid_grant''\<rparr>\<rparr>"

section \<open>Strings, errors and the Date object\<close>

text \<open>
  A JavaScript string is a list of code units. A string of the model is a string whose code
  units are all below 256 (Latin-1); the character \<open>CHR n\<close> is the code unit \<open>n\<close>. On these
  strings \<open>toLowerCase\<close> maps \<open>A\<close>..\<open>Z\<close> to \<open>a\<close>..\<open>z\<close> and the capital letters \<open>0xC0\<close>..\<open>0xD6\<close>
  and \<open>0xD8\<close>..\<open>0xDE\<close> to the letters \<open>0x20\<close> above them, and leaves every other code unit
  unchanged; \<open>trim\<close> removes white space and line terminators at both ends; the regular
  expression classes \<open>\d\<close> and \<open>\s\<close> are \<open>is_digit\<close> and \<open>is_space\<close>.
\<close>

datatype js_error = RangeError | TypeError | ApiError string

definition upper_letters :: string where
  "upper_letters =
     ''ABCDEFGHIJKLMNOPQRSTUVWXYZ''
     @ [CHR 0xC0, CHR 0xC1, CHR 0xC2, CHR 0xC3, CHR 0xC4, CHR 0xC5, CHR 0xC6, CHR 0xC7,
        CHR 0xC8, CHR 0xC9, CHR 0xCA, CHR 0xCB, CHR 0xCC, CHR 0xCD, CHR 0xCE, CHR 0xCF,
        CHR 0xD0, CHR 0xD1, CHR 0xD2, CHR 0xD3, CHR 0xD4, CHR 0xD5, CHR 0xD6,
        CHR 0xD8, CHR 0xD9, CHR 0xDA, CHR 0xDB, CHR 0xDC, CHR 0xDD, CHR 0xDE]"

definition lower_letters :: string where
  "lower_letters =
     ''abcdefghijklmnopqrstuvwxyz''
     @ [CHR 0xE0, CHR 0xE1, CHR 0xE2, CHR 0xE3, CHR 0xE4, CHR 0xE5, CHR 0xE6, CHR 0xE7,
        CHR 0xE8, CHR 0xE9, CHR 0xEA, CHR 0xEB, CHR 0xEC, CHR 0xED, CHR 0xEE, CHR 0xEF,
        CHR 0xF0, CHR 0xF1, CHR 0xF2, CHR 0xF3, CHR 0xF4, CHR 0xF5, CHR 0xF6,
        CHR 0xF8, CHR 0xF9, CHR 0xFA, CHR 0xFB, CHR 0xFC, CHR 0xFD, CHR 0xFE]"

definition lower_char :: "char \<Rightarrow> char" where
  "lower_char c =
     (case map_of (zip upper_letters lower_letters) c of
        Some d \<Rightarrow> d
      | None \<Rightarrow> c)"

definition toLowerCase :: "string \<Rightarrow> string" where
  "toLowerCase s = map lower_char s"

definition is_space :: "char \<Rightarrow> bool" where
  "is_space c =
     (c \<in> set [CHR 0x09, CHR 0x0A, CHR 0x0B, CHR 0x0C, CHR 0x0D, CHR '' '', CHR 0xA0])"

definition trim :: "string \<Rightarrow> string" where
  "trim s = rev (dropWhile is_space (rev (dropWhile is_space s)))"

definition is_digit :: "char \<Rightarrow> bool" where
  "is_digit c = (c \<in> set ''0123456789'')"

definition startsWith :: "string \<Rightarrow> string \<Rightarrow> bool" where
  "startsWith s p = prefix p s"

text \<open>
  \<open>parseInt(ds, 10)\<close> on a string of decimal digits. The value is exact here; JavaScript
  rounds it to a double from \<open>2^53\<close> on, which is far beyond every amount that leaves the
  shifted date inside the range of \<open>Date\<close>.
\<close>

definition parseInt :: "string \<Rightarrow> nat" where
  "parseInt ds = foldl (\<lambda>a c. 10 * a + (of_char c - 48)) 0 ds"

definition digit_char :: "nat \<Rightarrow> char" where
  "digit_char d = ''0123456789'' ! d"

text \<open>The decimal numeral of a natural number, as template literals and \<open>String(n)\<close> print it.\<close>

fun showNat :: "nat \<Rightarrow> string" where
  "showNat n =
     (if n < 10 then [digit_char n] else showNat (n div 10) @ [digit_char (n mod 10)])"

declare showNat.simps [simp del]

text \<open>\<open>xs.join(sep)\<close>\<close>

fun join :: "string \<Rightarrow> string list \<Rightarrow> string" where
  "join sep [] = []"
| "join sep [x] = x"
| "join sep (x # y # ys) = x @ sep @ join sep (y # ys)"

subsection \<open>Time values (ECMAScript, Date objects)\<close>

text \<open>
  A time value is a number of milliseconds since the epoch, or \<open>NaN\<close> (\<open>None\<close>, an invalid
  date). The abstract operations are those of the ECMAScript specification. The offset of
  local time is the implementation's \<open>LocalTZA(t, isUTC)\<close>, a function of the instant: for
  \<open>isUTC = true\<close> the argument is a UTC time value and the result is the offset in force at
  that instant; for \<open>isUTC = false\<close> the argument is a local time value and the result is the
  offset with which that local time is read. The offset may differ between two instants
  (daylight saving).
\<close>

definition msPerDay :: int where
  "msPerDay = 86400000"

definition Day :: "int \<Rightarrow> int" where
  "Day t = t div msPerDay"

definition TimeWithinDay :: "int \<Rightarrow> int" where
  "TimeWithinDay t = t mod msPerDay"

definition DayFromYear :: "int \<Rightarrow> int" where
  "DayFromYear y =
     365 * (y - 1970) + (y - 1969) div 4 - (y - 1901) div 100 + (y - 1601) div 400"

definition InLeapYear :: "int \<Rightarrow> bool" where
  "InLeapYear y = ((y mod 4 = 0 \<and> y mod 100 \<noteq> 0) \<or> y mod 400 = 0)"

text \<open>
  The year of a day number: the largest \<open>y\<close> with \<open>DayFromYear y \<le> d\<close>, computed from the
  days since 1 January 1601 by cycles of 400, 100, 4 and 1 years.
\<close>

definition YearFromDay :: "int \<Rightarrow> int" where
  "YearFromDay d =
     (let n = d + 134774;
          q400 = n div 146097; r400 = n mod 146097;
          q100 = min 3 (r400 div 36524); r100 = r400 - q100 * 36524;
          q4 = r100 div 1461; r4 = r100 mod 1461;
          q1 = min 3 (r4 div 365)
      in 1601 + 400 * q400 + 100 * q100 + 4 * q4 + q1)"

definition YearFromTime :: "int \<Rightarrow> int" where
  "YearFromTime t = YearFromDay (Day t)"

definition DayWithinYear :: "int \<Rightarrow> int" where
  "DayWithinYear t = Day t - DayFromYear (YearFromTime t)"

text \<open>The day within the year on which each month starts.\<close>

definition month_starts :: "bool \<Rightarrow> int list" where
  "month_starts leap =
     (if leap then [0, 31, 60, 91, 121, 152, 182, 213, 244, 274, 305, 335]
      else [0, 31, 59, 90, 120, 151, 181, 212, 243, 273, 304, 334])"

definition MonthFromTime :: "int \<Rightarrow> int" where
  "MonthFromTime t =
     int (length (filter (\<lambda>s. s \<le> DayWithinYear t)
                    (tl (month_starts (InLeapYear (YearFromTime t))))))"

definition DateFromTime :: "int \<Rightarrow> int" where
  "DateFromTime t =
     DayWithinYear t - month_starts (InLeapYear (YearFromTime t)) ! nat (MonthFromTime t) + 1"

definition MakeDay :: "int \<Rightarrow> int \<Rightarrow> int \<Rightarrow> int" where
  "MakeDay year month date =
     (let ym = year + month div 12; mn = month mod 12
      in DayFromYear ym + month_starts (InLeapYear ym) ! nat mn + date - 1)"

definition MakeDate :: "int \<Rightarrow> int \<Rightarrow> int" where
  "MakeDate day time = day * msPerDay + time"

definition maxTime :: int where
  "maxTime = 8640000000000000"

definition TimeClip :: "int \<Rightarrow> int option" where
  "TimeClip t = (if \<bar>t\<bar> > maxTime then None else Some t)"

type_synonym time_zone = "int \<Rightarrow> bool \<Rightarrow> int"

definition LocalTime :: "time_zone \<Rightarrow> int \<Rightarrow> int" where
  "LocalTime tza t = t + tza t True"

definition UTC :: "time_zone \<Rightarrow> int \<Rightarrow> int" where
  "UTC tza t = t - tza t False"

text \<open>
  The methods of \<open>Date.prototype\<close> that \<open>parseDate\<close> calls, on the time value of the object;
  a setter returns the new time value of the object.
\<close>

definition getDate :: "time_zone \<Rightarrow> int option \<Rightarrow> int option" where
  "getDate tza tv = map_option (\<lambda>t. DateFromTime (LocalTime tza t)) tv"

definition getMonth :: "time_zone \<Rightarrow> int option \<Rightarrow> int option" where
  "getMonth tza tv = map_option (\<lambda>t. MonthFromTime (LocalTime tza t)) tv"

definition setDate :: "time_zone \<Rightarrow> int option \<Rightarrow> int option \<Rightarrow> int option" where
  "setDate tza tv date =
     (case tv of
        None \<Rightarrow> None
      | Some t0 \<Rightarrow>
          (case date of
             None \<Rightarrow> None
           | Some dt \<Rightarrow>
               let t = LocalTime tza t0;
                   newDate = MakeDate (MakeDay (YearFromTime t) (MonthFromTime t) dt)
                               (TimeWithinDay t)
               in TimeClip (UTC tza newDate)))"

definition setMonth :: "time_zone \<Rightarrow> int option \<Rightarrow> int option \<Rightarrow> int option" where
  "setMonth tza tv month =
     (case tv of
        None \<Rightarrow> None
      | Some t0 \<Rightarrow>
          (case month of
             None \<Rightarrow> None
           | Some m \<Rightarrow>
               let t = LocalTime tza t0;
                   newDate = MakeDate (MakeDay (YearFromTime t) m (DateFromTime t))
                               (TimeWithinDay t)
               in TimeClip (UTC tza newDate)))"

text \<open>\<open>setHours(0, 0, 0, 0)\<close>\<close>

definition setHours0 :: "time_zone \<Rightarrow> int option \<Rightarrow> int option" where
  "setHours0 tza tv =
     (case tv of
        None \<Rightarrow> None
      | Some t0 \<Rightarrow> TimeClip (UTC tza (MakeDate (Day (LocalTime tza t0)) 0)))"

definition pad :: "nat \<Rightarrow> nat \<Rightarrow> string" where
  "pad w n = replicate (w - length (showNat n)) CHR ''0'' @ showNat n"

definition iso_year :: "int \<Rightarrow> string" where
  "iso_year y =
     (if 0 \<le> y \<and> y \<le> 9999 then pad 4 (nat y)
      else (if y < 0 then ''-'' else ''+'') @ pad 6 (nat \<bar>y\<bar>))"

definition iso_string :: "int \<Rightarrow> string" where
  "iso_string t =
     iso_year (YearFromTime t) @ ''-'' @ pad 2 (nat (MonthFromTime t + 1)) @ ''-''
     @ pad 2 (nat (DateFromTime t)) @ ''T''
     @ pad 2 (nat (TimeWithinDay t div 3600000)) @ '':''
     @ pad 2 (nat (TimeWithinDay t div 60000 mod 60)) @ '':''
     @ pad 2 (nat (TimeWithinDay t div 1000 mod 60)) @ ''.''
     @ pad 3 (nat (TimeWithinDay t mod 1000)) @ ''Z''"

text \<open>\<open>toISOString()\<close> throws a RangeError on an invalid date.\<close>

definition toISOString :: "int option \<Rightarrow> js_error + string" where
  "toISOString tv = (case tv of None \<Rightarrow> Inl RangeError | Some t \<Rightarrow> Inr (iso_string t))"

text \<open>
  The instant at which the local day of \<open>t\<close> starts, \<open>t\<close> truncated to local midnight: the
  local time of \<open>t\<close>, cut to the start of its day and read back as an instant. And the
  instant \<open>k\<close> days before \<open>t\<close> by the local calendar: the local time of \<open>t\<close> less \<open>k\<close> days,
  read back as an instant. When the offset of local time changes between the two instants
  it is not \<open>t\<close> less \<open>k\<close> times 24 hours.
\<close>

definition local_midnight :: "time_zone \<Rightarrow> int \<Rightarrow> int" where
  "local_midnight tza t = UTC tza (MakeDate (Day (LocalTime tza t)) 0)"

definition days_before :: "time_zone \<Rightarrow> int \<Rightarrow> int \<Rightarrow> int" where
  "days_before tza k t = UTC tza (LocalTime tza t - k * msPerDay)"

text \<open>
  What the code reads from its surroundings: the clock (\<open>Date.now()\<close>, which \<open>new Date()\<close>
  uses; taken as one reading for a whole search), the offset of local time, the parser of
  \<open>new Date(string)\<close> (the number it gives, \<open>None\<close> for \<open>NaN\<close>; ECMAScript leaves it to the
  implementation for most strings; the constructor applies \<open>TimeClip\<close> to it), and
  \<open>config.EMAIL_SELECT_FIELDS\<close>.
\<close>

record platform =
  clock :: int
  LocalTZA :: time_zone
  dateParse :: "string \<Rightarrow> int option"
  EMAIL_SELECT_FIELDS :: string

section \<open>email/search.js\<close>

subsection \<open>parseDate\<close>

text \<open>
  The match of \<open>/^(\d+)\s*(day|days|week|weeks|month|months)\s*ago$/\<close>: its two groups. The
  alternatives are tried in the order written, each with the rest of the pattern.
\<close>

fun match_unit :: "string \<Rightarrow> string \<Rightarrow> string list \<Rightarrow> (string \<times> string) option" where
  "match_unit ds r [] = None"
| "match_unit ds r (u # us) =
     (if prefix u r \<and> dropWhile is_space (drop (length u) r) = ''ago'' then Some (ds, u)
      else match_unit ds r us)"

definition relativeMatch :: "string \<Rightarrow> (string \<times> string) option" where
  "relativeMatch str =
     (let ds = takeWhile is_digit str;
          r = dropWhile is_space (dropWhile is_digit str)
      in if ds = [] then None
         else match_unit ds r [''day'', ''days'', ''week'', ''weeks'', ''month'', ''months''])"

definition parseDate :: "platform \<Rightarrow> string option \<Rightarrow> js_error + string option" where
  "parseDate env dateStr =
     (if \<not> truthy_str dateStr then Inr None
      else
        let str = trim (toLowerCase (the dateStr));
            tza = LocalTZA env;
            now = TimeClip (clock env)
        in if str = ''today'' then map_sum id Some (toISOString (setHours0 tza now))
           else if str = ''yesterday'' then
             map_sum id Some
               (toISOString
                  (setHours0 tza (setDate tza now (map_option (\<lambda>d. d - 1) (getDate tza now)))))
           else
             (case relativeMatch str of
                Some (ds, unit) \<Rightarrow>
                  let amount = int (parseInt ds);
                      now' =
                        (if startsWith unit ''day'' then
                           setDate tza now (map_option (\<lambda>d. d - amount) (getDate tza now))
                         else if startsWith unit ''week'' then
                           setDate tza now (map_option (\<lambda>d. d - amount * 7) (getDate tza now))
                         else if startsWith unit ''month'' then
                           setMonth tza now (map_option (\<lambda>m. m - amount) (getMonth tza now))
                         else now)
                  in map_sum id Some (toISOString (setHours0 tza now'))
              | None \<Rightarrow>
                  (let parsed = Option.bind (dateParse env (the dateStr)) TimeClip
                   in if parsed \<noteq> None then map_sum id Some (toISOString parsed)
                      else Inr None)))"

text \<open>The phrase \<open><n> <unit> ago\<close>, with single spaces.\<close>

definition relative_phrase :: "nat \<Rightarrow> string \<Rightarrow> string" where
  "relative_phrase n unit = showNat n @ '' '' @ unit @ '' ago''"

subsection \<open>Query parameters and filters\<close>

record search_terms =
  t_query :: string
  t_from :: string
  t_to :: string
  t_subject :: string

record filter_terms =
  hasAttachments :: "bool option"
  unreadOnly :: "bool option"
  before :: "string option"
  after :: "string option"

text \<open>The query parameters \<open>$top\<close>, \<open>$select\<close>, \<open>$orderby\<close>, \<open>$skip\<close>, \<open>$search\<close>, \<open>$filter\<close>.\<close>

record params =
  p_top :: int
  p_select :: string
  p_orderby :: string
  p_skip :: "int option"
  p_search :: "string option"
  p_filter :: "string option"

text \<open>One date bound of \<open>addFilters\<close>: the conditions it pushes, or what \<open>parseDate\<close> throws.\<close>

definition date_condition :: "platform \<Rightarrow> string \<Rightarrow> string option \<Rightarrow> js_error + string list" where
  "date_condition env pre bound =
     (if truthy_str bound then
        (case parseDate env bound of
           Inl e \<Rightarrow> Inl e
         | Inr d \<Rightarrow> Inr (if truthy_str d then [pre @ the d] else []))
      else Inr [])"

definition addFilters :: "platform \<Rightarrow> params \<Rightarrow> filter_terms \<Rightarrow> js_error + params" where
  "addFilters env ps ft =
     (let c1 = (if hasAttachments ft = Some True then [''hasAttachments eq true''] else []);
          c2 = c1 @ (if unreadOnly ft = Some True then [''isRead eq false''] else [])
      in case date_condition env ''receivedDateTime lt '' (before ft) of
           Inl e \<Rightarrow> Inl e
         | Inr b \<Rightarrow>
             (case date_condition env ''receivedDateTime ge '' (after ft) of
                Inl e \<Rightarrow> Inl e
              | Inr a \<Rightarrow>
                  let filterConditions = c2 @ b @ a
                  in Inr (if length filterConditions > 0
                          then ps\<lparr>p_filter := Some (join '' and '' filterConditions)\<rparr>
                          else ps)))"

definition base_params :: "platform \<Rightarrow> int \<Rightarrow> string \<Rightarrow> int \<Rightarrow> params" where
  "base_params env count orderBy skip =
     \<lparr>p_top = count, p_select = EMAIL_SELECT_FIELDS env, p_orderby = orderBy,
      p_skip = (if skip > 0 then Some skip else None), p_search = None, p_filter = None\<rparr>"

definition buildSearchParams ::
  "platform \<Rightarrow> search_terms \<Rightarrow> filter_terms \<Rightarrow> int \<Rightarrow> string \<Rightarrow> int \<Rightarrow> js_error + params" where
  "buildSearchParams env st ft count orderBy skip =
     (let ps = base_params env count orderBy skip;
          kqlTerms =
            (if t_query st \<noteq> [] then [t_query st] else [])
            @ (if t_subject st \<noteq> [] then [''subject:\"'' @ t_subject st @ ''\"''] else [])
            @ (if t_from st \<noteq> [] then [''from:\"'' @ t_from st @ ''\"''] else [])
            @ (if t_to st \<noteq> [] then [''to:\"'' @ t_to st @ ''\"''] else []);
          ps' = (if length kqlTerms > 0 then ps\<lparr>p_search := Some (join '' '' kqlTerms)\<rparr> else ps)
      in addFilters env ps' ft)"

subsection \<open>progressiveSearch\<close>

text \<open>
  A message is named by its id. \<open>response\<close> is what \<open>callGraphAPIPaginated\<close> resolves to:
  the code reads its \<open>value\<close> only (\<open>None\<close>: no such property). \<open>search_result\<close> is what
  \<open>progressiveSearch\<close> resolves to: the same object, to which the last strategy adds
  \<open>_searchInfo\<close>.
\<close>

type_synonym message = string

record response =
  resp_value :: "message list option"

record search_info =
  attemptsCount :: nat
  strategies :: "string list"
  originalTerms :: search_terms
  filterTerms :: filter_terms

record search_result =
  res_value :: "message list option"
  searchInfo :: "search_info option"

text \<open>
  \<open>callGraphAPIPaginated\<close> (utils/graph-api.js) is outside the module: it is a parameter,
  which answers the \<open>k\<close>-th call of a search (counted from 0), for an endpoint, query
  parameters and a maximal count, with a response or with an error it throws.
\<close>

type_synonym fetch = "nat \<Rightarrow> string \<Rightarrow> params \<Rightarrow> int \<Rightarrow> js_error + response"

text \<open>
  \<open>searchAttempts\<close> is the array of the source. \<open>produced\<close> and \<open>requests\<close> are kept beside
  it to state properties: what each attempt ended with (a response, or what was thrown
  inside its \<open>try\<close>), and the parameters and maximal count of each call made.
\<close>

record search_log =
  searchAttempts :: "string list"
  produced :: "(js_error + response) list"
  requests :: "(params \<times> int) list"

definition push_attempt :: "string \<Rightarrow> search_log \<Rightarrow> search_log" where
  "push_attempt name l = l\<lparr>searchAttempts := searchAttempts l @ [name]\<rparr>"

definition attempt_end :: "js_error + response \<Rightarrow> search_log \<Rightarrow> search_log" where
  "attempt_end out l = l\<lparr>produced := produced l @ [out]\<rparr>"

definition fetch_call ::
  "fetch \<Rightarrow> string \<Rightarrow> params \<Rightarrow> int \<Rightarrow> search_log \<Rightarrow> (js_error + response) \<times> search_log" where
  "fetch_call fetch endpoint ps maxCount l =
     (fetch (length (requests l)) endpoint ps maxCount,
      l\<lparr>requests := requests l @ [(ps, maxCount)]\<rparr>)"

text \<open>\<open>response.value && response.value.length > 0\<close>\<close>

definition has_items :: "response \<Rightarrow> bool" where
  "has_items r = (case resp_value r of None \<Rightarrow> False | Some v \<Rightarrow> length v > 0)"

text \<open>1. The combined search. \<open>Some r\<close> is \<open>return response\<close>; \<open>None\<close> goes on.\<close>

definition search_combined ::
  "platform \<Rightarrow> fetch \<Rightarrow> string \<Rightarrow> search_terms \<Rightarrow> filter_terms \<Rightarrow> int \<Rightarrow> string \<Rightarrow> int
     \<Rightarrow> search_log \<Rightarrow> response option \<times> search_log" where
  "search_combined env fetch endpoint st ft maxCount orderBy skip l =
     (case buildSearchParams env st ft (min 50 maxCount) orderBy skip of
        Inl e \<Rightarrow> (None, l)
      | Inr ps \<Rightarrow>
          (case fetch_call fetch endpoint ps maxCount (push_attempt ''combined-search'' l) of
             (Inr r, l') \<Rightarrow>
               if has_items r then (Some r, attempt_end (Inr r) l')
               else (None, attempt_end (Inr r) l')
           | (Inl e, l') \<Rightarrow> (None, attempt_end (Inl e) l')))"

text \<open>\<open>searchTerms[term]\<close>\<close>

definition term_value :: "search_terms \<Rightarrow> string \<Rightarrow> string" where
  "term_value st term =
     (if term = ''subject'' then t_subject st
      else if term = ''from'' then t_from st
      else if term = ''to'' then t_to st
      else if term = ''query'' then t_query st
      else [])"

definition searchPriority :: "string list" where
  "searchPriority = [''subject'', ''from'', ''to'', ''query'']"

definition single_term_params ::
  "platform \<Rightarrow> search_terms \<Rightarrow> int \<Rightarrow> string \<Rightarrow> int \<Rightarrow> string \<Rightarrow> params" where
  "single_term_params env st maxCount orderBy skip term =
     (base_params env (min 50 maxCount) orderBy skip)
       \<lparr>p_search :=
          Some (if term = ''query'' then ''\"'' @ term_value st term @ ''\"''
                else term @ '':\"'' @ term_value st term @ ''\"'')\<rparr>"

text \<open>2. The loop over \<open>searchPriority\<close>.\<close>

fun search_single_terms ::
  "platform \<Rightarrow> fetch \<Rightarrow> string \<Rightarrow> search_terms \<Rightarrow> filter_terms \<Rightarrow> int \<Rightarrow> string \<Rightarrow> int
     \<Rightarrow> string list \<Rightarrow> search_log \<Rightarrow> response option \<times> search_log" where
  "search_single_terms env fetch endpoint st ft maxCount orderBy skip [] l = (None, l)"
| "search_single_terms env fetch endpoint st ft maxCount orderBy skip (term # rest) l =
     (if term_value st term \<noteq> [] then
        (case addFilters env (single_term_params env st maxCount orderBy skip term) ft of
           Inl e \<Rightarrow>
             search_single_terms env fetch endpoint st ft maxCount orderBy skip rest
               (attempt_end (Inl e) (push_attempt (''single-term-'' @ term) l))
         | Inr ps \<Rightarrow>
             (case fetch_call fetch endpoint ps maxCount
                     (push_attempt (''single-term-'' @ term) l) of
                (Inr r, l') \<Rightarrow>
                  if has_items r then (Some r, attempt_end (Inr r) l')
                  else search_single_terms env fetch endpoint st ft maxCount orderBy skip rest
                         (attempt_end (Inr r) l')
              | (Inl e, l') \<Rightarrow>
                  search_single_terms env fetch endpoint st ft maxCount orderBy skip rest
                    (attempt_end (Inl e) l')))
      else search_single_terms env fetch endpoint st ft maxCount orderBy skip rest l)"

definition hasFilters :: "filter_terms \<Rightarrow> bool" where
  "hasFilters ft =
     (hasAttachments ft = Some True \<or> unreadOnly ft = Some True
      \<or> truthy_str (before ft) \<or> truthy_str (after ft))"

text \<open>3. The search with filters only: its response is returned whatever it holds.\<close>

definition search_filters ::
  "platform \<Rightarrow> fetch \<Rightarrow> string \<Rightarrow> filter_terms \<Rightarrow> int \<Rightarrow> string \<Rightarrow> int
     \<Rightarrow> search_log \<Rightarrow> response option \<times> search_log" where
  "search_filters env fetch endpoint ft maxCount orderBy skip l =
     (if hasFilters ft then
        (case addFilters env (base_params env (min 50 maxCount) orderBy skip) ft of
           Inl e \<Rightarrow> (None, attempt_end (Inl e) (push_attempt ''filters-only'' l))
         | Inr ps \<Rightarrow>
             (case fetch_call fetch endpoint ps maxCount (push_attempt ''filters-only'' l) of
                (Inr r, l') \<Rightarrow> (Some r, attempt_end (Inr r) l')
              | (Inl e, l') \<Rightarrow> (None, attempt_end (Inl e) l')))
      else (None, l))"

text \<open>
  4. The basic listing: nothing catches what its call throws, and its response gets
  \<open>_searchInfo\<close>.
\<close>

definition search_basic ::
  "platform \<Rightarrow> fetch \<Rightarrow> string \<Rightarrow> search_terms \<Rightarrow> filter_terms \<Rightarrow> int \<Rightarrow> string \<Rightarrow> int
     \<Rightarrow> search_log \<Rightarrow> (js_error + search_result) \<times> search_log" where
  "search_basic env fetch endpoint st ft maxCount orderBy skip l =
     (case fetch_call fetch endpoint (base_params env (min 50 maxCount) orderBy skip) maxCount
             (push_attempt ''basic-listing'' l) of
        (Inl e, l') \<Rightarrow> (Inl e, attempt_end (Inl e) l')
      | (Inr r, l') \<Rightarrow>
          (Inr \<lparr>res_value = resp_value r,
                searchInfo =
                  Some \<lparr>attemptsCount = length (searchAttempts l'),
                        strategies = searchAttempts l',
                        originalTerms = st, filterTerms = ft\<rparr>\<rparr>,
           attempt_end (Inr r) l'))"

text \<open>A response returned as it came from the call.\<close>

definition plain :: "response \<Rightarrow> search_result" where
  "plain r = \<lparr>res_value = resp_value r, searchInfo = None\<rparr>"

definition progressiveSearch ::
  "platform \<Rightarrow> fetch \<Rightarrow> string \<Rightarrow> search_terms \<Rightarrow> filter_terms \<Rightarrow> int \<Rightarrow> string \<Rightarrow> int
     \<Rightarrow> (js_error + search_result) \<times> search_log" where
  "progressiveSearch env fetch endpoint st ft maxCount sortOrder skip =
     (let orderBy = ''receivedDateTime '' @ sortOrder;
          l0 = \<lparr>searchAttempts = [], produced = [], requests = []\<rparr>
      in case search_combined env fetch endpoint st ft maxCount orderBy skip l0 of
           (Some r, l1) \<Rightarrow> (Inr (plain r), l1)
         | (None, l1) \<Rightarrow>
             (case search_single_terms env fetch endpoint st ft maxCount orderBy skip
                     searchPriority l1 of
                (Some r, l2) \<Rightarrow> (Inr (plain r), l2)
              | (None, l2) \<Rightarrow>
                  (case search_filters env fetch endpoint ft maxCount orderBy skip l2 of
                     (Some r, l3) \<Rightarrow> (Inr (plain r), l3)
                   | (None, l3) \<Rightarrow>
                       search_basic env fetch endpoint st ft maxCount orderBy skip l3)))"

subsection \<open>formatSearchResults\<close>

text \<open>
  The text of the reply. \<open>no_results\<close> is the test of the early return,
  \<open>!response.value || response.value.length === 0\<close>; \<open>sortInfo\<close>, \<open>infoStr\<close> and
  \<open>additionalInfo\<close> are the local variables of the source, which it computes after that
  return only. The rendering of the messages reads the fields of each message and the
  locale: it is a parameter \<open>emailList\<close>, given the messages and \<open>skip\<close>. The last entry of an
  empty \<open>strategies\<close> is \<open>undefined\<close>, which the template prints as such.
\<close>

definition no_results :: "search_result \<Rightarrow> bool" where
  "no_results response =
     (case res_value response of None \<Rightarrow> True | Some v \<Rightarrow> length v = 0)"

definition sortInfo :: "string \<Rightarrow> string" where
  "sortInfo sortOrder = (if sortOrder = ''asc'' then ''oldest first'' else ''newest first'')"

definition infoStr :: "search_result \<Rightarrow> string \<Rightarrow> int \<Rightarrow> string" where
  "infoStr response sortOrder skip =
     (if skip > 0 then
        '' (showing '' @ showNat (nat (skip + 1)) @ ''-''
        @ showNat (nat (skip + int (length (the (res_value response)))))
        @ '', '' @ sortInfo sortOrder @ '')''
      else '' ('' @ sortInfo sortOrder @ '')'')"

definition additionalInfo :: "search_result \<Rightarrow> string" where
  "additionalInfo response =
     (case searchInfo response of
        None \<Rightarrow> []
      | Some i \<Rightarrow>
          [CHR 0x0A] @ ''(Search used ''
          @ (if strategies i = [] then ''undefined'' else last (strategies i))
          @ '' strategy)'')"

definition formatSearchResults ::
  "(message list \<Rightarrow> int \<Rightarrow> string) \<Rightarrow> search_result \<Rightarrow> string \<Rightarrow> int \<Rightarrow> string" where
  "formatSearchResults emailList response sortOrder skip =
     (if no_results response then ''No emails found matching your search criteria.''
      else
        ''Found '' @ showNat (length (the (res_value response))) @ '' emails''
        @ infoStr response sortOrder skip @ '':'' @ additionalInfo response
        @ [CHR 0x0A, CHR 0x0A] @ emailList (the (res_value response)) skip)"

text \<open>
  The strategy that the reply names, in its line \<open>(Search used ... strategy)\<close>: none when
  the reply is that of the early return, and none when the response has no \<open>_searchInfo\<close>.
\<close>

definition strategyUsed :: "search_result \<Rightarrow> string option" where
  "strategyUsed response =
     (if no_results response then None
      else
        (case searchInfo response of
           None \<Rightarrow> None
         | Some i \<Rightarrow> Some (if strategies i = [] then ''undefined'' else last (strategies i))))"

subsection \<open>The strategies in their order\<close>

definition single_term_names :: "search_terms \<Rightarrow> string list \<Rightarrow> string list" where
  "single_term_names st terms =
     map (\<lambda>term. ''single-term-'' @ term) (filter (\<lambda>term. term_value st term \<noteq> []) terms)"

definition plan :: "search_terms \<Rightarrow> filter_terms \<Rightarrow> string list" where
  "plan st ft =
     [''combined-search''] @ single_term_names st searchPriority
     @ (if hasFilters ft then [''filters-only''] else []) @ [''basic-listing'']"

text \<open>An attempt that produced no item: it threw, or its response holds none.\<close>

definition no_items :: "js_error + response \<Rightarrow> bool" where
  "no_items out = (case out of Inl e \<Rightarrow> True | Inr r \<Rightarrow> \<not> has_items r)"

text \<open>Each attempted strategy with what it produced.\<close>

definition trace :: "search_log \<Rightarrow> (string \<times> (js_error + response)) list" where
  "trace l = zip (searchAttempts l) (produced l)"

text \<open>
  The order in which a search can attempt its strategies: \<open>plan\<close>, without the combined
  search when building its parameters throws (nothing is pushed for it then).
\<close>

definition plan_of ::
  "platform \<Rightarrow> search_terms \<Rightarrow> filter_terms \<Rightarrow> int \<Rightarrow> string \<Rightarrow> int \<Rightarrow> string list" where
  "plan_of env st ft maxCount sortOrder skip =
     (if isl (buildSearchParams env st ft (min 50 maxCount) (''receivedDateTime '' @ sortOrder) skip)
      then tl (plan st ft) else plan st ft)"

text \<open>A log grows by the names \<open>names\<close> and by what their attempts produced.\<close>

definition extends ::
  "search_log \<Rightarrow> search_log \<Rightarrow> string list \<Rightarrow> (js_error + response) list \<Rightarrow> bool" where
  "extends l l' names outs =
     (searchAttempts l' = searchAttempts l @ names \<and> produced l' = produced l @ outs
      \<and> length names = length outs)"

text \<open>A call passes \<open>$top = min(50, maxCount)\<close> and the budget \<open>maxCount\<close>.\<close>

definition sized :: "int \<Rightarrow> params \<times> int \<Rightarrow> bool" where
  "sized maxCount rq = (p_top (fst rq) = min 50 maxCount \<and> snd rq = maxCount)"

subsection \<open>Example values\<close>

text \<open>
  A time zone with daylight saving, the offsets of Central European time in 2023: two hours
  from 26 March 01:00 UTC to 29 October 01:00 UTC, one hour otherwise; a local time that a
  transition skips or repeats is read with the offset before the transition.
\<close>

definition zone0 :: time_zone where
  "zone0 t isUTC =
     (let u = (if isUTC then t else t - 7200000)
      in if 1679792400000 \<le> u \<and> u < 1698541200000 then 7200000 else 3600000)"

definition env0 :: platform where
  "env0 = \<lparr>clock = 1700000000000, LocalTZA = zone0, dateParse = (\<lambda>s. None),
           EMAIL_SELECT_FIELDS = ''id,subject''\<rparr>"

definition no_terms :: search_terms where
  "no_terms = \<lparr>t_query = [], t_from = [], t_to = [], t_subject = []\<rparr>"

definition subject_invoice :: search_terms where
  "subject_invoice = \<lparr>t_query = [], t_from = [], t_to = [], t_subject = ''invoice''\<rparr>"

definition no_filters :: filter_terms where
  "no_filters = \<lparr>hasAttachments = None, unreadOnly = None, before = None, after = None\<rparr>"

definition unread_only :: filter_terms where
  "unread_only = \<lparr>hasAttachments = None, unreadOnly = Some True, before = None, after = None\<rparr>"

text \<open>Fetches: every call finds nothing; call \<open>j\<close> finds a message; call \<open>i\<close> throws.\<close>

definition fetch_nothing :: fetch where
  "fetch_nothing k endpoint ps maxCount = Inr \<lparr>resp_value = Some []\<rparr>"

definition fetch_found_at :: "nat \<Rightarrow> fetch" where
  "fetch_found_at j k endpoint ps maxCount =
     (if k = j then Inr \<lparr>resp_value = Some [''m1'']\<rparr> else Inr \<lparr>resp_value = Some []\<rparr>)"

definition fetch_error_at :: "nat \<Rightarrow> nat \<Rightarrow> fetch" where
  "fetch_error_at i j k endpoint ps maxCount =
     (if k = i then Inl (ApiError ''503'') else fetch_found_at j k endpoint ps maxCount)"

section \<open>The list handler: its call of the paginated fetch\<close>

text \<open>
  \<open>handleListEmails\<close>: \<open>requestedCount = args.count || 10\<close>, the query parameters, and the
  maximal count it passes to \<open>callGraphAPIPaginated\<close>.
\<close>

definition handleListEmails_request :: "platform \<Rightarrow> int option \<Rightarrow> params \<times> int" where
  "handleListEmails_request env count =
     (let requestedCount = (if truthy_num count then the count else 10)
      in (\<lparr>p_top = min 50 requestedCount, p_select = EMAIL_SELECT_FIELDS env,
           p_orderby = ''receivedDateTime desc'', p_skip = None, p_search = None,
           p_filter = None\<rparr>,
          requestedCount))"

section \<open>utils/mailbox-path.js and email/folder-utils.js\<close>

definition getMailboxBasePath :: "string option \<Rightarrow> string" where
  "getMailboxBasePath mailbox =
     (if \<not> truthy_str mailbox \<or> trim (the mailbox) = [] then ''me''
      else ''users/'' @ trim (the mailbox))"

text \<open>The object literal that \<open>getWellKnownFolders\<close> returns: its own properties, in order.\<close>

definition getWellKnownFolders :: "string option \<Rightarrow> (string \<times> string) list" where
  "getWellKnownFolders mailbox =
     (let basePath = getMailboxBasePath mailbox
      in [(''inbox'', basePath @ ''/mailFolders/inbox/messages''),
          (''drafts'', basePath @ ''/mailFolders/drafts/messages''),
          (''sent'', basePath @ ''/mailFolders/sentItems/messages''),
          (''deleted'', basePath @ ''/mailFolders/deletedItems/messages''),
          (''junk'', basePath @ ''/mailFolders/junkemail/messages''),
          (''archive'', basePath @ ''/mailFolders/archive/messages'')])"

text \<open>
  Reading a property \<open>obj[k]\<close> of an object literal: an own property gives its string; a
  name that \<open>Object.prototype\<close> defines gives the inherited member (a function, or the
  prototype object itself for \<open>__proto__\<close>), which is not a string and is truthy; any other
  name gives \<open>undefined\<close>.
\<close>

datatype prop_value = Str string | Inherited string

definition object_prototype_names :: "string list" where
  "object_prototype_names =
     [''constructor'', ''__proto__'', ''hasOwnProperty'', ''isPrototypeOf'',
      ''propertyIsEnumerable'', ''toLocaleString'', ''toString'', ''valueOf'',
      ''__defineGetter__'', ''__defineSetter__'', ''__lookupGetter__'', ''__lookupSetter__'']"

definition get_prop :: "(string \<times> string) list \<Rightarrow> string \<Rightarrow> prop_value option" where
  "get_prop obj k =
     (case map_of obj k of
        Some v \<Rightarrow> Some (Str v)
      | None \<Rightarrow> if k \<in> set object_prototype_names then Some (Inherited k) else None)"

definition truthy_prop :: "prop_value option \<Rightarrow> bool" where
  "truthy_prop v =
     (case v of None \<Rightarrow> False | Some (Str s) \<Rightarrow> s \<noteq> [] | Some (Inherited n) \<Rightarrow> True)"

text \<open>
  A mail folder as the Graph API lists it, the response of a folder listing, and
  \<open>callGraphAPI\<close> (utils/graph-api.js, outside the module) as a parameter: for a path and
  the query (\<open>$filter\<close> or \<open>$top\<close>) it answers with a response or throws.
\<close>

record folder =
  folder_id :: "string option"
  displayName :: "string option"

record folders_response =
  folders_value :: "folder list option"

datatype folder_query = Filter string | Top nat

type_synonym graph_api = "string \<Rightarrow> folder_query \<Rightarrow> js_error + folders_response"

text \<open>
  \<open>allFoldersResponse.value.find(folder => folder.displayName.toLowerCase() === lowerFolderName)\<close>:
  a folder without \<open>displayName\<close> makes the callback throw a TypeError.
\<close>

fun find_folder :: "string \<Rightarrow> folder list \<Rightarrow> js_error + folder option" where
  "find_folder lowerFolderName [] = Inr None"
| "find_folder lowerFolderName (f # fs) =
     (case displayName f of
        None \<Rightarrow> Inl TypeError
      | Some d \<Rightarrow>
          if toLowerCase d = lowerFolderName then Inr (Some f)
          else find_folder lowerFolderName fs)"

text \<open>The body of the \<open>try\<close> of \<open>getFolderIdByName\<close>.\<close>

definition getFolderIdByName_try ::
  "graph_api \<Rightarrow> string \<Rightarrow> string option \<Rightarrow> js_error + string option" where
  "getFolderIdByName_try api folderName mailbox =
     (let basePath = getMailboxBasePath mailbox
      in case api (basePath @ ''/mailFolders'')
                (Filter (''displayName eq '' @ [CHR 0x27] @ folderName @ [CHR 0x27])) of
           Inl e \<Rightarrow> Inl e
         | Inr response \<Rightarrow>
             (case folders_value response of
                Some (f # fs) \<Rightarrow> Inr (folder_id f)
              | _ \<Rightarrow>
                  (case api (basePath @ ''/mailFolders'') (Top 100) of
                     Inl e \<Rightarrow> Inl e
                   | Inr allFoldersResponse \<Rightarrow>
                       (case folders_value allFoldersResponse of
                          None \<Rightarrow> Inr None
                        | Some folders \<Rightarrow>
                            (case find_folder (toLowerCase folderName) folders of
                               Inl e \<Rightarrow> Inl e
                             | Inr None \<Rightarrow> Inr None
                             | Inr (Some matchingFolder) \<Rightarrow>
                                 Inr (folder_id matchingFolder))))))"

text \<open>\<open>getFolderIdByName\<close>: its \<open>catch\<close> returns \<open>null\<close>.\<close>

definition getFolderIdByName :: "graph_api \<Rightarrow> string \<Rightarrow> string option \<Rightarrow> string option" where
  "getFolderIdByName api folderName mailbox =
     (case getFolderIdByName_try api folderName mailbox of Inl e \<Rightarrow> None | Inr r \<Rightarrow> r)"

text \<open>
  \<open>resolveFolderPath\<close>: the value it resolves to. Nothing in its \<open>try\<close> can throw, since
  \<open>getFolderIdByName\<close> catches its own errors; its \<open>catch\<close> would return the inbox too.
\<close>

definition resolveFolderPath ::
  "graph_api \<Rightarrow> string option \<Rightarrow> string option \<Rightarrow> prop_value option" where
  "resolveFolderPath api folderName mailbox =
     (let wellKnownFolders = getWellKnownFolders mailbox;
          basePath = getMailboxBasePath mailbox
      in if \<not> truthy_str folderName then get_prop wellKnownFolders ''inbox''
         else
           let lowerFolderName = toLowerCase (the folderName)
           in if truthy_prop (get_prop wellKnownFolders lowerFolderName)
              then get_prop wellKnownFolders lowerFolderName
              else
                let folderId = getFolderIdByName api (the folderName) mailbox
                in if truthy_str folderId
                   then Some (Str (basePath @ ''/mailFolders/'' @ the folderId @ ''/messages''))
                   else get_prop wellKnownFolders ''inbox'')"

text \<open>The six names of the table of well-known folders.\<close>

definition well_known_names :: "string list" where
  "well_known_names = [''inbox'', ''drafts'', ''sent'', ''deleted'', ''junk'', ''archive'']"

text \<open>A Graph API whose every call fails, and one that lists no folder.\<close>

definition api_down :: graph_api where
  "api_down path q = Inl (ApiError ''503'')"

definition api_no_folders :: graph_api where
  "api_no_folders path q = Inr \<lparr>folders_value = Some []\<rparr>"

section \<open>The paginated fetch\<close>

text \<open>
  \<open>callGraphAPIPaginated\<close> lives in utils/graph-api.js, which is not among the sources. The
  definitions of this section follow the specification of the paginated fetch instead.
  A page request carries its size and the remaining budget; the remote call, the \<open>k\<close>-th
  of a fetch, answers with a page (its items, and whether the server has further data) or
  fails. The result holds the items accumulated in arrival order, the failure that ended
  the fetch if one did, and the page requests that were issued.
\<close>

definition serverPageCap :: nat where
  "serverPageCap = 50"

record page_request =
  pr_size :: nat
  pr_budget :: nat

record page =
  items :: "message list"
  has_more :: bool

type_synonym remote = "nat \<Rightarrow> page_request \<Rightarrow> js_error + page"

record fetched =
  f_items :: "message list"
  f_error :: "js_error option"
  f_pages :: "page_request list"

text \<open>
  Modelled from the spec: the loop of the paginated fetch, whose code (utils/graph-api.js)
  is missing. It issues requests, each page sized to the minimum of the server page cap
  and the remaining budget, accumulates the returned items in arrival order, and ends when
  the remaining budget reaches zero, when a page returns fewer items than requested, when
  the server indicates no further data, or when a request fails (the items fetched so far
  are kept, with the failure). A page is sized: of what the remote call returns, the
  accumulator takes the requested number of items at most, so that its count never exceeds
  the caller's maximum whatever the server sends.
\<close>

function fetch_pages :: "remote \<Rightarrow> nat \<Rightarrow> fetched \<Rightarrow> fetched" where
  "fetch_pages remote remaining acc =
     (if remaining = 0 then acc
      else
        let rq = \<lparr>pr_size = min serverPageCap remaining, pr_budget = remaining\<rparr>;
            acc1 = acc\<lparr>f_pages := f_pages acc @ [rq]\<rparr>
        in case remote (length (f_pages acc)) rq of
             Inl e \<Rightarrow> acc1\<lparr>f_error := Some e\<rparr>
           | Inr p \<Rightarrow>
               let got = take (pr_size rq) (items p);
                   acc2 = acc1\<lparr>f_items := f_items acc1 @ got\<rparr>
               in if length (items p) < pr_size rq \<or> \<not> has_more p then acc2
                  else fetch_pages remote (remaining - length got) acc2)"
  by pat_completeness auto
termination
  by (relation "measure (\<lambda>(remote, remaining, acc). remaining)")
     (auto simp: serverPageCap_def)

declare fetch_pages.simps [simp del]

text \<open>
  Modelled from the spec: \<open>fetch(path, baseParams, maxItems)\<close> of the paginated fetch
  (utils/graph-api.js is missing), started with the caller's maximum as the budget.
\<close>

definition paginated_fetch :: "remote \<Rightarrow> int \<Rightarrow> fetched" where
  "paginated_fetch remote maxItems =
     fetch_pages remote (nat maxItems) \<lparr>f_items = [], f_error = None, f_pages = []\<rparr>"

text \<open>
  Page requests issued from a remaining budget: each is issued with a budget left, sized
  to the minimum of the cap and that budget, and the next one gets the budget less its size.
\<close>

fun budgets_ok :: "nat \<Rightarrow> page_request list \<Rightarrow> bool" where
  "budgets_ok remaining [] = True"
| "budgets_ok remaining (rq # rest) =
     (pr_budget rq = remaining \<and> 0 < remaining \<and> pr_size rq = min serverPageCap remaining
      \<and> budgets_ok (remaining - pr_size rq) rest)"

text \<open>
  Example servers: a source of \<open>n\<close> messages, served in pages of the requested size; and a
  server that answers every request with the same 60 messages and says that it has more.
\<close>

definition remote_of :: "message list \<Rightarrow> remote" where
  "remote_of src k rq =
     Inr \<lparr>items = take (pr_size rq) (drop (k * serverPageCap) src),
          has_more = (k * serverPageCap + pr_size rq < length src)\<rparr>"

definition remote_flood :: remote where
  "remote_flood k rq = Inr \<lparr>items = map showNat [0..<60], has_more = True\<rparr>"

section \<open>Properties of the token manager\<close>

text \<open>
  C8. With a clock that reads a time since the epoch (\<open>0 \<le> now\<close>), \<open>needsRefresh\<close> holds
  exactly when there is no cached record, or the record has no expiry field, or the clock
  is at or past the expiry instant minus 300 seconds (300000 ms). A credential that expires
  4 minutes after the clock reading needs refresh; one that expires 10 minutes after it
  does not.
\<close>

theorem needsRefresh_iff:
  assumes "0 \<le> now"
  shows "needsRefresh now cached =
           (case cached of
              None \<Rightarrow> True
            | Some t \<Rightarrow>
                (case expires_at t of
                   None \<Rightarrow> True
                 | Some e \<Rightarrow> now \<ge> e - 300 * 1000))
         \<and> needsRefresh now (Some (t\<lparr>expires_at := Some (now + 4 * 60 * 1000)\<rparr>))
         \<and> \<not> needsRefresh now (Some (t\<lparr>expires_at := Some (now + 10 * 60 * 1000)\<rparr>))"
  using assms
  by (auto simp: needsRefresh_def truthy_num_def REFRESH_BUFFER_MS_def
           split: option.splits)

theorem needsRefresh_iff_witness:
  "(0::int) \<le> 1000
   \<and> needsRefresh 1000 None
   \<and> needsRefresh 1000
        (Some \<lparr>access_token = Some ''a'', refresh_token = Some ''r'', expires_in = Some 3600,
               expires_at = Some 241000, scope = None\<rparr>)
   \<and> \<not> needsRefresh 1000
        (Some \<lparr>access_token = Some ''a'', refresh_token = Some ''r'', expires_in = Some 3600,
               expires_at = Some 601000, scope = None\<rparr>)"
  using needsRefresh_iff [of 1000 None
      "\<lparr>access_token = Some ''a'', refresh_token = Some ''r'', expires_in = Some 3600,
        expires_at = Some 0, scope = None\<rparr>"]
  by simp

lemma step_single_flight: "single_flight s \<Longrightarrow> single_flight (step s e)"
  by (cases e)
     (auto simp: step_def single_flight_def getAccessToken_def loadTokenCache_def finish_def
                 refreshAccessToken_def on_end_def on_error_def settle_def saveTokenCache_def Let_def
           split: option.splits token_file.splits if_splits response_body.splits prod.splits refresh_call.splits)

lemma run_single_flight: "single_flight s \<Longrightarrow> single_flight (run s es)"
  unfolding run_def by (induction es arbitrary: s) (auto simp: step_single_flight)

lemma single_flight_length: "single_flight s \<Longrightarrow> length (inflight s) \<le> 1"
  by (auto simp: single_flight_def split: option.splits)

lemma getAccessToken_attach:
  assumes "cachedTokens s = Some t" "truthy_str (access_token t)"
    "truthy_str (refresh_token t)" "needsRefresh now (Some t)" "refreshPromise s = Some p"
  shows "getAccessToken c now s = s\<lparr>waiting := waiting s @ [(c, p)]\<rparr>"
  using assms by (simp add: getAccessToken_def refreshAccessToken_def)

lemma getAccessToken_start:
  assumes "cachedTokens s = Some t" "truthy_str (access_token t)"
    "truthy_str (refresh_token t)" "needsRefresh now (Some t)" "refreshPromise s = None"
  shows "getAccessToken c now s =
           s\<lparr>refreshPromise := Some (created s), created := Suc (created s),
             inflight := inflight s @ [created s], waiting := waiting s @ [(c, created s)]\<rparr>"
  using assms by (simp add: getAccessToken_def refreshAccessToken_def)

lemma run_calls_attach:
  assumes "cachedTokens s = Some t" "truthy_str (access_token t)"
    "truthy_str (refresh_token t)" "\<forall>call \<in> set calls. needsRefresh (snd call) (Some t)"
    "refreshPromise s = Some p"
  shows "run s (calls_of calls) = s\<lparr>waiting := waiting s @ map (\<lambda>call. (fst call, p)) calls\<rparr>"
  using assms
proof (induction calls arbitrary: s)
  case Nil
  then show ?case by (simp add: run_def calls_of_def)
next
  case (Cons a calls)
  have st: "step s (GetAccessToken (fst a) (snd a)) = s\<lparr>waiting := waiting s @ [(fst a, p)]\<rparr>"
    using Cons.prems by (simp add: step_def getAccessToken_attach)
  have "run s (calls_of (a # calls)) = run (s\<lparr>waiting := waiting s @ [(fst a, p)]\<rparr>) (calls_of calls)"
    using st by (simp add: run_def calls_of_def)
  also have "\<dots> = (s\<lparr>waiting := waiting s @ [(fst a, p)]\<rparr>)\<lparr>waiting := waiting (s\<lparr>waiting := waiting s @ [(fst a, p)]\<rparr>) @ map (\<lambda>call. (fst call, p)) calls\<rparr>"
    by (rule Cons.IH) (use Cons.prems in simp_all)
  finally show ?case by simp
qed

lemma run_calls_start:
  assumes "cachedTokens s = Some t" "truthy_str (access_token t)"
    "truthy_str (refresh_token t)" "\<forall>call \<in> set calls. needsRefresh (snd call) (Some t)"
    "refreshPromise s = None" "calls \<noteq> []"
  shows "run s (calls_of calls) =
           s\<lparr>refreshPromise := Some (created s), created := Suc (created s),
             inflight := inflight s @ [created s],
             waiting := waiting s @ map (\<lambda>call. (fst call, created s)) calls\<rparr>"
proof (cases calls)
  case Nil
  with assms show ?thesis by simp
next
  case (Cons a rest)
  let ?s1 = "s\<lparr>refreshPromise := Some (created s), created := Suc (created s),
             inflight := inflight s @ [created s], waiting := waiting s @ [(fst a, created s)]\<rparr>"
  have st: "step s (GetAccessToken (fst a) (snd a)) = ?s1"
    using assms Cons by (simp add: step_def getAccessToken_start)
  have "run s (calls_of calls) = run ?s1 (calls_of rest)"
    using st Cons by (simp add: run_def calls_of_def)
  also have "\<dots> = ?s1\<lparr>waiting := waiting ?s1 @ map (\<lambda>call. (fst call, created s)) rest\<rparr>"
    by (rule run_calls_attach[where t = t]) (use assms Cons in simp_all)
  finally show ?thesis using Cons by simp
qed

lemma settle_step:
  assumes "inflight s = [p]" "settles p e"
  shows "refreshPromise (step s e) = None \<and> inflight (step s e) = []
         \<and> (\<exists>r. finished (step s e) =
                  finished s @ map (\<lambda>w. (fst w, r)) (filter (awaits p) (waiting s)))"
  using assms
  by (cases e)
     (auto simp: settles_def step_def on_end_def on_error_def settle_def saveTokenCache_def Let_def
           split: response_body.splits option.splits)

lemma filter_awaits_map: "filter (awaits p) (map (\<lambda>call. (fst call, p)) calls) = map (\<lambda>call. (fst call, p)) calls"
  by (induction calls) (simp_all add: awaits_def)

lemma settle_end_ok:
  assumes "inflight s = [p]" "cachedTokens s = Some t" "body res = JsonObject b"
    and "200 \<le> statusCode res" "statusCode res < 300"
  shows "finished (step s (ResponseEnd p now res))
           = finished s @ map (\<lambda>w. (fst w, Returned (r_access_token b))) (filter (awaits p) (waiting s))
         \<and> map_option access_token (cachedTokens (step s (ResponseEnd p now res)))
           = Some (r_access_token b)"
  using assms
  by (simp add: step_def on_end_def settle_def saveTokenCache_def resume_def merge_response_def Let_def)

lemma settle_end_failed:
  assumes "inflight s = [p]" "renewal_failed res"
  shows "finished (step s (ResponseEnd p now res))
           = finished s @ map (\<lambda>w. (fst w, Returned None)) (filter (awaits p) (waiting s))"
  using assms
  by (auto simp: step_def on_end_def settle_def resume_def renewal_failed_def Let_def
           split: response_body.splits)

lemma settle_error:
  assumes "inflight s = [p]"
  shows "finished (step s (RequestError p))
           = finished s @ map (\<lambda>w. (fst w, Returned None)) (filter (awaits p) (waiting s))"
  using assms by (simp add: step_def on_error_def settle_def resume_def)

lemma calls_wait:
  assumes "single_flight s" and "cachedTokens s = Some t"
    and "truthy_str (access_token t)" and "truthy_str (refresh_token t)"
    and "\<forall>call \<in> set calls. needsRefresh (snd call) (Some t)" and "calls \<noteq> []"
  shows "\<exists>p. refreshPromise (run s (calls_of calls)) = Some p
            \<and> (refreshPromise s = None \<or> refreshPromise s = Some p)
            \<and> inflight (run s (calls_of calls)) = [p]
            \<and> waiting (run s (calls_of calls)) = waiting s @ map (\<lambda>call. (fst call, p)) calls
            \<and> finished (run s (calls_of calls)) = finished s
            \<and> cachedTokens (run s (calls_of calls)) = Some t
            \<and> created (run s (calls_of calls))
                = (if refreshPromise s = None then Suc (created s) else created s)"
proof (cases "refreshPromise s")
  case None
  then have infl: "inflight s = []" using assms(1) by (simp add: single_flight_def)
  have eq: "run s (calls_of calls)
             = s\<lparr>refreshPromise := Some (created s), created := Suc (created s),
                 inflight := inflight s @ [created s],
                 waiting := waiting s @ map (\<lambda>call. (fst call, created s)) calls\<rparr>"
    using assms None by (intro run_calls_start) simp_all
  show ?thesis unfolding eq using None infl assms(2) by simp
next
  case (Some p)
  then have infl: "inflight s = [p]" using assms(1) by (simp add: single_flight_def)
  have eq: "run s (calls_of calls) = s\<lparr>waiting := waiting s @ map (\<lambda>call. (fst call, p)) calls\<rparr>"
    using assms Some by (intro run_calls_attach) simp_all
  show ?thesis unfolding eq using Some infl assms(2) by simp
qed


text \<open>
  C1. Take any state in which the slot and the requests in flight agree, holding a record
  with an access token and a refresh token, and any non-empty sequence of calls of
  \<open>getAccessToken\<close>, each made while the record needs refresh, with no other event between
  them. Whatever events are run, at most one renewal request is in flight. The calls create
  one renewal request when the slot was empty and none when it held a promise; afterwards
  the slot holds one promise \<open>p\<close> (the one it held before, if any), its request is the only
  one in flight, and every one of the calls waits on \<open>p\<close>. When \<open>p\<close> settles, by the \<open>end\<close> or
  the \<open>error\<close> event of its request, the slot is cleared, no request is in flight, and every
  call that waited on \<open>p\<close> completes with one and the same result: on a 2xx reply with a
  usable body, the access token of the reply, which is then the cached access token; on
  any other reply and on a request error, \<open>null\<close>.
\<close>

theorem single_flight_refresh:
  assumes "single_flight s" and "cachedTokens s = Some t"
    and "truthy_str (access_token t)" and "truthy_str (refresh_token t)"
    and "\<forall>call \<in> set calls. needsRefresh (snd call) (Some t)" and "calls \<noteq> []"
  shows "(\<forall>es. length (inflight (run s es)) \<le> 1)
       \<and> created (run s (calls_of calls)) =
           (if refreshPromise s = None then Suc (created s) else created s)
       \<and> (\<exists>p. refreshPromise (run s (calls_of calls)) = Some p
              \<and> (refreshPromise s = None \<or> refreshPromise s = Some p)
              \<and> inflight (run s (calls_of calls)) = [p]
              \<and> waiting (run s (calls_of calls)) = waiting s @ map (\<lambda>call. (fst call, p)) calls
              \<and> (\<forall>e. settles p e \<longrightarrow>
                    refreshPromise (step (run s (calls_of calls)) e) = None
                  \<and> inflight (step (run s (calls_of calls)) e) = []
                  \<and> (\<exists>r. finished (step (run s (calls_of calls)) e) =
                           finished s
                           @ map (\<lambda>w. (fst w, r)) (filter (awaits p) (waiting s))
                           @ map (\<lambda>call. (fst call, r)) calls))
              \<and> (\<forall>now res b.
                    body res = JsonObject b \<and> 200 \<le> statusCode res \<and> statusCode res < 300 \<longrightarrow>
                    finished (step (run s (calls_of calls)) (ResponseEnd p now res)) =
                      finished s
                      @ map (\<lambda>w. (fst w, Returned (r_access_token b)))
                          (filter (awaits p) (waiting s))
                      @ map (\<lambda>call. (fst call, Returned (r_access_token b))) calls
                  \<and> map_option access_token
                      (cachedTokens (step (run s (calls_of calls)) (ResponseEnd p now res)))
                    = Some (r_access_token b))
              \<and> (\<forall>now res.
                    renewal_failed res \<longrightarrow>
                    finished (step (run s (calls_of calls)) (ResponseEnd p now res)) =
                      finished s
                      @ map (\<lambda>w. (fst w, Returned None)) (filter (awaits p) (waiting s))
                      @ map (\<lambda>call. (fst call, Returned None)) calls)
              \<and> finished (step (run s (calls_of calls)) (RequestError p)) =
                  finished s
                  @ map (\<lambda>w. (fst w, Returned None)) (filter (awaits p) (waiting s))
                  @ map (\<lambda>call. (fst call, Returned None)) calls)"
proof -
  let ?s' = "run s (calls_of calls)"
  have inv: "\<forall>es. length (inflight (run s es)) \<le> 1"
    using assms(1) single_flight_length[OF run_single_flight] by blast
  from calls_wait[OF assms] obtain p where
    slot: "refreshPromise ?s' = Some p" and same: "refreshPromise s = None \<or> refreshPromise s = Some p"
    and infl: "inflight ?s' = [p]"
    and wait: "waiting ?s' = waiting s @ map (\<lambda>call. (fst call, p)) calls"
    and fin: "finished ?s' = finished s" and cached: "cachedTokens ?s' = Some t"
    and cr: "created ?s' = (if refreshPromise s = None then Suc (created s) else created s)"
    by blast
  have waiters: "map (\<lambda>w. (fst w, r)) (filter (awaits p) (waiting ?s'))
                  = map (\<lambda>w. (fst w, r)) (filter (awaits p) (waiting s))
                    @ map (\<lambda>call. (fst call, r)) calls" for r :: call_result
    by (simp add: wait filter_awaits_map comp_def)
  have any: "\<forall>e. settles p e \<longrightarrow>
                    refreshPromise (step ?s' e) = None
                  \<and> inflight (step ?s' e) = []
                  \<and> (\<exists>r. finished (step ?s' e) =
                           finished s
                           @ map (\<lambda>w. (fst w, r)) (filter (awaits p) (waiting s))
                           @ map (\<lambda>call. (fst call, r)) calls)"
  proof (intro allI impI)
    fix e assume "settles p e"
    from settle_step[OF infl this] obtain r where
      a: "refreshPromise (step ?s' e) = None" "inflight (step ?s' e) = []"
      and b: "finished (step ?s' e) = finished ?s' @ map (\<lambda>w. (fst w, r)) (filter (awaits p) (waiting ?s'))"
      by blast
    from b have "finished (step ?s' e) = finished s
                           @ map (\<lambda>w. (fst w, r)) (filter (awaits p) (waiting s))
                           @ map (\<lambda>call. (fst call, r)) calls"
      by (simp only: fin waiters)
    with a show "refreshPromise (step ?s' e) = None
                  \<and> inflight (step ?s' e) = []
                  \<and> (\<exists>r. finished (step ?s' e) =
                           finished s
                           @ map (\<lambda>w. (fst w, r)) (filter (awaits p) (waiting s))
                           @ map (\<lambda>call. (fst call, r)) calls)" by blast
  qed
  have ok: "\<forall>now res b.
                    body res = JsonObject b \<and> 200 \<le> statusCode res \<and> statusCode res < 300 \<longrightarrow>
                    finished (step ?s' (ResponseEnd p now res)) =
                      finished s
                      @ map (\<lambda>w. (fst w, Returned (r_access_token b)))
                          (filter (awaits p) (waiting s))
                      @ map (\<lambda>call. (fst call, Returned (r_access_token b))) calls
                  \<and> map_option access_token (cachedTokens (step ?s' (ResponseEnd p now res)))
                    = Some (r_access_token b)"
  proof (intro allI impI)
    fix now :: int and res :: http_response and b :: token_response
    assume h: "body res = JsonObject b \<and> 200 \<le> statusCode res \<and> statusCode res < 300"
    then have h1: "body res = JsonObject b" and h2: "200 \<le> statusCode res"
      and h3: "statusCode res < 300" by simp_all
    from settle_end_ok[OF infl cached h1 h2 h3, of now]
    show "finished (step ?s' (ResponseEnd p now res)) =
                      finished s
                      @ map (\<lambda>w. (fst w, Returned (r_access_token b)))
                          (filter (awaits p) (waiting s))
                      @ map (\<lambda>call. (fst call, Returned (r_access_token b))) calls
                  \<and> map_option access_token (cachedTokens (step ?s' (ResponseEnd p now res)))
                    = Some (r_access_token b)"
      by (simp only: fin waiters)
  qed
  have failed: "\<forall>now res.
                    renewal_failed res \<longrightarrow>
                    finished (step ?s' (ResponseEnd p now res)) =
                      finished s
                      @ map (\<lambda>w. (fst w, Returned None)) (filter (awaits p) (waiting s))
                      @ map (\<lambda>call. (fst call, Returned None)) calls"
  proof (intro allI impI)
    fix now :: int and res :: http_response
    assume h: "renewal_failed res"
    from settle_end_failed[OF infl h, of now]
    show "finished (step ?s' (ResponseEnd p now res)) =
                      finished s
                      @ map (\<lambda>w. (fst w, Returned None)) (filter (awaits p) (waiting s))
                      @ map (\<lambda>call. (fst call, Returned None)) calls"
      by (simp only: fin waiters)
  qed
  have err: "finished (step ?s' (RequestError p)) =
                  finished s
                  @ map (\<lambda>w. (fst w, Returned None)) (filter (awaits p) (waiting s))
                  @ map (\<lambda>call. (fst call, Returned None)) calls"
    using settle_error[OF infl] by (simp only: fin waiters)
  from slot same infl wait any ok failed err
  have ex: "\<exists>p. refreshPromise ?s' = Some p
              \<and> (refreshPromise s = None \<or> refreshPromise s = Some p)
              \<and> inflight ?s' = [p]
              \<and> waiting ?s' = waiting s @ map (\<lambda>call. (fst call, p)) calls
              \<and> (\<forall>e. settles p e \<longrightarrow>
                    refreshPromise (step ?s' e) = None
                  \<and> inflight (step ?s' e) = []
                  \<and> (\<exists>r. finished (step ?s' e) =
                           finished s
                           @ map (\<lambda>w. (fst w, r)) (filter (awaits p) (waiting s))
                           @ map (\<lambda>call. (fst call, r)) calls))
              \<and> (\<forall>now res b.
                    body res = JsonObject b \<and> 200 \<le> statusCode res \<and> statusCode res < 300 \<longrightarrow>
                    finished (step ?s' (ResponseEnd p now res)) =
                      finished s
                      @ map (\<lambda>w. (fst w, Returned (r_access_token b)))
                          (filter (awaits p) (waiting s))
                      @ map (\<lambda>call. (fst call, Returned (r_access_token b))) calls
                  \<and> map_option access_token (cachedTokens (step ?s' (ResponseEnd p now res)))
                    = Some (r_access_token b))
              \<and> (\<forall>now res.
                    renewal_failed res \<longrightarrow>
                    finished (step ?s' (ResponseEnd p now res)) =
                      finished s
                      @ map (\<lambda>w. (fst w, Returned None)) (filter (awaits p) (waiting s))
                      @ map (\<lambda>call. (fst call, Returned None)) calls)
              \<and> finished (step ?s' (RequestError p)) =
                  finished s
                  @ map (\<lambda>w. (fst w, Returned None)) (filter (awaits p) (waiting s))
                  @ map (\<lambda>call. (fst call, Returned None)) calls"
    by (intro exI[of _ p] conjI)
  from inv cr ex show ?thesis by (intro conjI)
qed

lemmas tm_defs = run_def calls_of_def step_def getAccessToken_def loadTokenCache_def finish_def
  refreshAccessToken_def on_end_def on_error_def settle_def saveTokenCache_def resume_def awaits_def
  merge_response_def needsRefresh_def truthy_str_def truthy_num_def REFRESH_BUFFER_MS_def
  initial_def stale_def reply_ok_def reply_denied_def single_flight_def settles_def current_tokens_def
  renewal_failed_def Let_def

theorem single_flight_refresh_witness:
  "single_flight (initial (Contents stale) True\<lparr>cachedTokens := Some stale\<rparr>)
   \<and> truthy_str (access_token stale) \<and> truthy_str (refresh_token stale)
   \<and> needsRefresh 5000 (Some stale) \<and> needsRefresh 5001 (Some stale)
   \<and> needsRefresh 5002 (Some stale)
   \<and> created (run (initial (Contents stale) True\<lparr>cachedTokens := Some stale\<rparr>)
         (calls_of [(1, 5000), (2, 5001), (3, 5002)])) = 1
   \<and> finished (run (initial (Contents stale) True\<lparr>cachedTokens := Some stale\<rparr>)
         (calls_of [(1, 5000), (2, 5001), (3, 5002)] @ [ResponseEnd 0 6000 reply_ok]))
       = [(1, Returned (Some ''new'')), (2, Returned (Some ''new'')), (3, Returned (Some ''new''))]
   \<and> finished (run (initial (Contents stale) True\<lparr>cachedTokens := Some stale\<rparr>)
         (calls_of [(1, 5000), (2, 5001), (3, 5002)] @ [ResponseEnd 0 6000 reply_denied]))
       = [(1, Returned None), (2, Returned None), (3, Returned None)]
   \<and> finished (run (initial (Contents stale) True\<lparr>cachedTokens := Some stale\<rparr>)
         (calls_of [(1, 5000), (2, 5001), (3, 5002)] @ [RequestError 0]))
       = [(1, Returned None), (2, Returned None), (3, Returned None)]"
proof -
  let ?s = "initial (Contents stale) True\<lparr>cachedTokens := Some stale\<rparr>"
  let ?cs = "[(1, 5000), (2, 5001), (3, 5002)] :: (nat \<times> int) list"
  have h1: "single_flight ?s" by (simp add: single_flight_def initial_def)
  have h2: "cachedTokens ?s = Some stale" by simp
  have h3: "truthy_str (access_token stale)" by (simp add: truthy_str_def stale_def)
  have h4: "truthy_str (refresh_token stale)" by (simp add: truthy_str_def stale_def)
  have h5: "\<forall>call \<in> set ?cs. needsRefresh (snd call) (Some stale)"
    by (simp add: needsRefresh_def truthy_num_def stale_def REFRESH_BUFFER_MS_def)
  have h6: "?cs \<noteq> []" by simp
  note t = single_flight_refresh [OF h1 h2 h3 h4 h5 h6]
  have "created (run ?s (calls_of ?cs)) = (if refreshPromise ?s = None then Suc (created ?s) else created ?s)"
    using t by (rule conjunct1[OF conjunct2])
  then have c: "created (run ?s (calls_of ?cs)) = 1" by (simp add: initial_def)
  from t obtain p where
    slot: "refreshPromise (run ?s (calls_of ?cs)) = Some p"
    and ok: "\<forall>now res b.
                body res = JsonObject b \<and> 200 \<le> statusCode res \<and> statusCode res < 300 \<longrightarrow>
                finished (step (run ?s (calls_of ?cs)) (ResponseEnd p now res)) =
                  finished ?s
                  @ map (\<lambda>w. (fst w, Returned (r_access_token b))) (filter (awaits p) (waiting ?s))
                  @ map (\<lambda>call. (fst call, Returned (r_access_token b))) ?cs
              \<and> map_option access_token
                  (cachedTokens (step (run ?s (calls_of ?cs)) (ResponseEnd p now res)))
                = Some (r_access_token b)"
    and failed: "\<forall>now res.
                renewal_failed res \<longrightarrow>
                finished (step (run ?s (calls_of ?cs)) (ResponseEnd p now res)) =
                  finished ?s
                  @ map (\<lambda>w. (fst w, Returned None)) (filter (awaits p) (waiting ?s))
                  @ map (\<lambda>call. (fst call, Returned None)) ?cs"
    and err: "finished (step (run ?s (calls_of ?cs)) (RequestError p)) =
                  finished ?s
                  @ map (\<lambda>w. (fst w, Returned None)) (filter (awaits p) (waiting ?s))
                  @ map (\<lambda>call. (fst call, Returned None)) ?cs"
    by blast
  have "refreshPromise (run ?s (calls_of ?cs)) = Some 0" by (simp add: tm_defs)
  with slot have p: "p = 0" by simp
  have okr: "body reply_ok = JsonObject \<lparr>r_access_token = Some ''new'', r_refresh_token = None,
       r_expires_in = Some 3600, r_scope = None, r_error_description = None\<rparr>
       \<and> 200 \<le> statusCode reply_ok \<and> statusCode reply_ok < 300"
    by (simp add: reply_ok_def)
  have den: "renewal_failed reply_denied" by (simp add: renewal_failed_def reply_denied_def)
  have st: "run ?s (calls_of ?cs @ [e]) = step (run ?s (calls_of ?cs)) e" for e
    by (simp add: run_def)
  have e1: "finished (run ?s (calls_of ?cs @ [ResponseEnd 0 6000 reply_ok]))
       = [(1, Returned (Some ''new'')), (2, Returned (Some ''new'')), (3, Returned (Some ''new''))]"
    using ok[rule_format, OF okr, of 6000] unfolding st p by (simp add: initial_def)
  have e2: "finished (run ?s (calls_of ?cs @ [ResponseEnd 0 6000 reply_denied]))
       = [(1, Returned None), (2, Returned None), (3, Returned None)]"
    using failed[rule_format, OF den, of 6000] unfolding st p by (simp add: initial_def)
  have e3: "finished (run ?s (calls_of ?cs @ [RequestError 0]))
       = [(1, Returned None), (2, Returned None), (3, Returned None)]"
    using err unfolding st p by (simp add: initial_def)
  from h1 h3 h4 h5 c e1 e2 e3 show ?thesis by simp
qed

text \<open>
  C4. Let the \<open>end\<close> event of a renewal request in flight arrive while a record \<open>t\<close> is
  cached. On a 2xx reply with a usable body the cached record becomes: the reply's access
  token, the reply's refresh token if it is truthy and the old one otherwise, the reply's
  lifetime, the expiry \<open>now + expires_in * 1000\<close>, the reply's scope if it is truthy and the
  old one otherwise; and the same record is written to the token file when the file can be
  written. On a failed attempt (a reply that is not 2xx, a body that does not parse or is
  \<open>null\<close>, or the request's \<open>error\<close> event) the cached record and the token file are
  unchanged.
\<close>

theorem renewal_merges_or_discards:
  assumes "p \<in> set (inflight s)" and "cachedTokens s = Some t"
  shows "(body res = JsonObject b \<and> 200 \<le> statusCode res \<and> statusCode res < 300 \<longrightarrow>
            cachedTokens (step s (ResponseEnd p now res)) =
              Some \<lparr>access_token = r_access_token b,
                    refresh_token =
                      (if truthy_str (r_refresh_token b) then r_refresh_token b
                       else refresh_token t),
                    expires_in = r_expires_in b,
                    expires_at = map_option (\<lambda>e. now + e * 1000) (r_expires_in b),
                    scope = (if truthy_str (r_scope b) then r_scope b else scope t)\<rparr>
          \<and> (fsWritable s \<longrightarrow>
                tokenFile (step s (ResponseEnd p now res)) =
                  Contents (the (cachedTokens (step s (ResponseEnd p now res))))))
       \<and> (renewal_failed res \<longrightarrow>
            cachedTokens (step s (ResponseEnd p now res)) = Some t
          \<and> tokenFile (step s (ResponseEnd p now res)) = tokenFile s)
       \<and> cachedTokens (step s (RequestError p)) = Some t
       \<and> tokenFile (step s (RequestError p)) = tokenFile s"
  using assms
  by (auto simp: step_def on_end_def on_error_def settle_def saveTokenCache_def Let_def
        merge_response_def renewal_failed_def split: response_body.splits)

theorem renewal_merges_or_discards_witness:
  "cachedTokens (run (initial NoFile True\<lparr>cachedTokens := Some stale\<rparr>)
      [GetAccessToken 1 5000, ResponseEnd 0 6000 reply_ok])
     = Some \<lparr>access_token = Some ''new'', refresh_token = Some ''r1'', expires_in = Some 3600,
             expires_at = Some 3606000, scope = Some ''Mail.Read''\<rparr>
   \<and> tokenFile (run (initial NoFile True\<lparr>cachedTokens := Some stale\<rparr>)
      [GetAccessToken 1 5000, ResponseEnd 0 6000 reply_ok])
     = Contents \<lparr>access_token = Some ''new'', refresh_token = Some ''r1'', expires_in = Some 3600,
             expires_at = Some 3606000, scope = Some ''Mail.Read''\<rparr>
   \<and> cachedTokens (run (initial NoFile True\<lparr>cachedTokens := Some stale\<rparr>)
      [GetAccessToken 1 5000, ResponseEnd 0 6000 reply_denied]) = Some stale
   \<and> tokenFile (run (initial NoFile True\<lparr>cachedTokens := Some stale\<rparr>)
      [GetAccessToken 1 5000, ResponseEnd 0 6000 reply_denied]) = NoFile"
proof -
  let ?s = "step (initial NoFile True\<lparr>cachedTokens := Some stale\<rparr>) (GetAccessToken 1 5000)"
  let ?b = "\<lparr>r_access_token = Some ''new'', r_refresh_token = None,
             r_expires_in = Some 3600, r_scope = None, r_error_description = None\<rparr>"
  have h1: "0 \<in> set (inflight ?s)" by (simp add: tm_defs)
  have h2: "cachedTokens ?s = Some stale" by (simp add: tm_defs)
  have ok: "body reply_ok = JsonObject ?b \<and> 200 \<le> statusCode reply_ok \<and> statusCode reply_ok < 300"
    by (simp add: reply_ok_def)
  have bad: "renewal_failed reply_denied" by (simp add: renewal_failed_def reply_denied_def)
  have w: "fsWritable ?s" "tokenFile ?s = NoFile" by (simp_all add: tm_defs)
  have r: "run (initial NoFile True\<lparr>cachedTokens := Some stale\<rparr>) [GetAccessToken 1 5000, e]
             = step ?s e" for e
    by (simp add: run_def)
  from renewal_merges_or_discards [OF h1 h2, of reply_ok ?b 6000] ok w
  have a: "cachedTokens (step ?s (ResponseEnd 0 6000 reply_ok)) =
             Some \<lparr>access_token = Some ''new'', refresh_token = Some ''r1'',
                   expires_in = Some 3600, expires_at = Some 3606000, scope = Some ''Mail.Read''\<rparr>"
    and b: "tokenFile (step ?s (ResponseEnd 0 6000 reply_ok)) =
             Contents (the (cachedTokens (step ?s (ResponseEnd 0 6000 reply_ok))))"
    by (simp_all add: truthy_str_def stale_def)
  from renewal_merges_or_discards [OF h1 h2, of reply_denied ?b 6000] bad w
  have c: "cachedTokens (step ?s (ResponseEnd 0 6000 reply_denied)) = Some stale"
    and d: "tokenFile (step ?s (ResponseEnd 0 6000 reply_denied)) = NoFile"
    by simp_all
  show ?thesis using a b c d by (simp only: r option.sel simp_thms)
qed

lemma step_no_throw:
  assumes "Threw \<notin> snd ` set (finished s)"
  shows "Threw \<notin> snd ` set (finished (step s e))"
  using assms
  by (cases e)
     (auto simp: step_def getAccessToken_def loadTokenCache_def finish_def resume_def
                 refreshAccessToken_def on_end_def on_error_def settle_def saveTokenCache_def Let_def
           split: option.splits token_file.splits if_splits response_body.splits prod.splits refresh_call.splits)

lemma run_no_throw:
  assumes "Threw \<notin> snd ` set (finished s)"
  shows "Threw \<notin> snd ` set (finished (run s es))"
  using assms unfolding run_def
proof (induction es arbitrary: s)
  case Nil
  then show ?case by simp
next
  case (Cons e es)
  from Cons.prems have "Threw \<notin> snd ` set (finished (step s e))" by (rule step_no_throw)
  then have "Threw \<notin> snd ` set (finished (foldl step (step s e) es))" by (rule Cons.IH)
  then show ?case by simp
qed

text \<open>
  C6. No run of events makes a call of \<open>getAccessToken\<close> complete by throwing, if none had
  before. A call made when no record is loaded or can be loaded, or the record has no access
  token, or the record needs refresh and has no refresh token, returns \<open>null\<close> at once. When a
  renewal attempt fails (the request's \<open>error\<close> event, a reply that is not 2xx, or a body
  that cannot be used), every call that waited on it returns \<open>null\<close>.
\<close>

theorem getAccessToken_absent_not_thrown:
  "(Threw \<notin> snd ` set (finished s) \<longrightarrow> Threw \<notin> snd ` set (finished (run s es)))
   \<and> (current_tokens s = None
        \<or> (\<exists>t. current_tokens s = Some t
              \<and> (\<not> truthy_str (access_token t)
                  \<or> (needsRefresh now (Some t) \<and> \<not> truthy_str (refresh_token t))))
      \<longrightarrow> finished (getAccessToken c now s) = finished s @ [(c, Returned None)])
   \<and> (p \<in> set (inflight s)
       \<and> (e = RequestError p \<or> (e = ResponseEnd p now' res \<and> renewal_failed res))
      \<longrightarrow> finished (step s e) =
            finished s @ map (\<lambda>w. (fst w, Returned None)) (filter (awaits p) (waiting s)))"
proof (intro conjI impI)
  assume "Threw \<notin> snd ` set (finished s)"
  then show "Threw \<notin> snd ` set (finished (run s es))" by (rule run_no_throw)
next
  assume "current_tokens s = None
        \<or> (\<exists>t. current_tokens s = Some t
              \<and> (\<not> truthy_str (access_token t)
                  \<or> (needsRefresh now (Some t) \<and> \<not> truthy_str (refresh_token t))))"
  then show "finished (getAccessToken c now s) = finished s @ [(c, Returned None)]"
    by (auto simp: current_tokens_def getAccessToken_def finish_def Let_def loadTokenCache_def
             split: option.splits token_file.splits if_splits)
next
  assume "p \<in> set (inflight s)
       \<and> (e = RequestError p \<or> (e = ResponseEnd p now' res \<and> renewal_failed res))"
  then show "finished (step s e) =
            finished s @ map (\<lambda>w. (fst w, Returned None)) (filter (awaits p) (waiting s))"
    by (auto simp: step_def on_end_def on_error_def settle_def resume_def renewal_failed_def Let_def
             split: response_body.splits)
qed

theorem getAccessToken_absent_not_thrown_witness:
  "Threw \<notin> snd ` set (finished (initial NoFile True\<lparr>cachedTokens := Some stale\<rparr>))
   \<and> Threw \<notin> snd ` set (finished (run (initial NoFile True\<lparr>cachedTokens := Some stale\<rparr>)
        [GetAccessToken 1 5000, GetAccessToken 2 5001, ResponseEnd 0 6000 reply_denied]))
   \<and> current_tokens (initial NoFile True) = None
   \<and> finished (getAccessToken 7 5000 (initial NoFile True)) = [(7, Returned None)]
   \<and> finished (step (run (initial NoFile True\<lparr>cachedTokens := Some stale\<rparr>)
                         [GetAccessToken 1 5000, GetAccessToken 2 5001])
                   (ResponseEnd 0 6000 reply_denied))
       = [(1, Returned None), (2, Returned None)]"
proof -
  let ?s0 = "initial NoFile True\<lparr>cachedTokens := Some stale\<rparr>"
  let ?es = "[GetAccessToken 1 5000, GetAccessToken 2 5001, ResponseEnd 0 6000 reply_denied]"
  let ?s2 = "run ?s0 [GetAccessToken 1 5000, GetAccessToken 2 5001]"
  have h1: "Threw \<notin> snd ` set (finished ?s0)" by (simp add: initial_def)
  have h2: "current_tokens (initial NoFile True) = None"
    by (simp add: current_tokens_def initial_def loadTokenCache_def)
  have h3: "0 \<in> set (inflight ?s2)" by (simp add: tm_defs)
  have h4: "renewal_failed reply_denied" by (simp add: renewal_failed_def reply_denied_def)
  have w: "finished ?s2 = []" "filter (awaits 0) (waiting ?s2) = [(1, 0), (2, 0)]"
    by (simp_all add: tm_defs)
  have a: "Threw \<notin> snd ` set (finished (run ?s0 ?es))"
    using getAccessToken_absent_not_thrown [of ?s0 ?es] h1 by blast
  have b: "finished (getAccessToken 7 5000 (initial NoFile True)) = [(7, Returned None)]"
    using getAccessToken_absent_not_thrown [of "initial NoFile True" "[]" 5000 7] h2
    by (simp add: initial_def)
  have c: "finished (step ?s2 (ResponseEnd 0 6000 reply_denied))
             = [(1, Returned None), (2, Returned None)]"
    using getAccessToken_absent_not_thrown
            [of ?s2 "[]" 0 0 0 "ResponseEnd 0 6000 reply_denied" 6000 reply_denied] h3 h4 w
    by simp
  show ?thesis using h1 h2 a b c by simp
qed


section \<open>Properties of the progressive search\<close>

lemma combined_shape:
  assumes "search_combined env fetch endpoint st ft maxCount orderBy skip l = (ret, l')"
  shows "\<exists>outs. extends l l'
            (if isl (buildSearchParams env st ft (min 50 maxCount) orderBy skip) then []
             else [''combined-search'']) outs
          \<and> (case ret of None \<Rightarrow> list_all no_items outs
              | Some r \<Rightarrow> outs = [Inr r] \<and> has_items r)"
  using assms
  by (auto simp: search_combined_def extends_def fetch_call_def push_attempt_def attempt_end_def
        no_items_def split: sum.splits if_splits prod.splits)

lemma single_shape:
  assumes "search_single_terms env fetch endpoint st ft maxCount orderBy skip terms l = (ret, l')"
  shows "\<exists>names outs. extends l l' names outs
          \<and> prefix names (single_term_names st terms)
          \<and> (case ret of
                None \<Rightarrow> names = single_term_names st terms \<and> list_all no_items outs
              | Some r \<Rightarrow> outs \<noteq> [] \<and> list_all no_items (butlast outs) \<and> last outs = Inr r
                          \<and> has_items r)"
  using assms
proof (induction terms arbitrary: l)
  case Nil
  then show ?case by (auto simp: extends_def single_term_names_def)
next
  case (Cons t rest)
  show ?case
  proof (cases "term_value st t \<noteq> []")
    case False
    with Cons.prems have rec: "search_single_terms env fetch endpoint st ft maxCount orderBy skip rest l = (ret, l')"
      by simp
    have eq: "single_term_names st (t # rest) = single_term_names st rest"
      using False by (simp add: single_term_names_def)
    from Cons.IH[OF rec] show ?thesis unfolding eq .
  next
    case True
    let ?n = "''single-term-'' @ t"
    let ?l1 = "push_attempt ?n l"
    have names: "single_term_names st (t # rest) = ?n # single_term_names st rest"
      using True by (simp add: single_term_names_def)
    have miss: ?thesis
      if m: "no_items out" "extends l l2 [?n] [out]"
        "search_single_terms env fetch endpoint st ft maxCount orderBy skip rest l2 = (ret, l')"
      for out l2
    proof -
      from Cons.IH[OF m(3)] obtain names outs where
        e: "extends l2 l' names outs" and p: "prefix names (single_term_names st rest)"
        and c: "(case ret of
                None \<Rightarrow> names = single_term_names st rest \<and> list_all no_items outs
              | Some r \<Rightarrow> outs \<noteq> [] \<and> list_all no_items (butlast outs) \<and> last outs = Inr r
                          \<and> has_items r)"
        by blast
      have "extends l l' (?n # names) (out # outs)"
        using e m(2) by (simp add: extends_def)
      moreover have "prefix (?n # names) (single_term_names st (t # rest))"
        using p names by simp
      moreover have "(case ret of
                None \<Rightarrow> ?n # names = single_term_names st (t # rest) \<and> list_all no_items (out # outs)
              | Some r \<Rightarrow> out # outs \<noteq> [] \<and> list_all no_items (butlast (out # outs)) \<and> last (out # outs) = Inr r
                          \<and> has_items r)"
        using c m(1) names by (auto split: option.splits)
      ultimately show ?thesis by blast
    qed
    show ?thesis
    proof (cases "addFilters env (single_term_params env st maxCount orderBy skip t) ft")
      case (Inl e)
      show ?thesis
      proof (rule miss[of "Inl e" "attempt_end (Inl e) ?l1"])
        show "no_items (Inl e)" by (simp add: no_items_def)
        show "extends l (attempt_end (Inl e) ?l1) [?n] [Inl e]"
          by (simp add: extends_def attempt_end_def push_attempt_def)
        show "search_single_terms env fetch endpoint st ft maxCount orderBy skip rest
                (attempt_end (Inl e) ?l1) = (ret, l')"
          using Cons.prems True Inl by simp
      qed
    next
      case (Inr ps)
      let ?out = "fetch (length (requests ?l1)) endpoint ps maxCount"
      let ?l2 = "attempt_end ?out (?l1\<lparr>requests := requests ?l1 @ [(ps, maxCount)]\<rparr>)"
      have ext: "extends l ?l2 [?n] [?out]"
        by (simp add: extends_def attempt_end_def push_attempt_def)
      show ?thesis
      proof (cases "no_items ?out")
        case True
        have "search_single_terms env fetch endpoint st ft maxCount orderBy skip rest ?l2 = (ret, l')"
          using Cons.prems \<open>term_value st t \<noteq> []\<close> Inr True
          by (auto simp: fetch_call_def no_items_def split: sum.splits if_splits)
        from miss[OF True ext this] show ?thesis .
      next
        case False
        then obtain r where r: "?out = Inr r" "has_items r"
          by (auto simp: no_items_def split: sum.splits)
        have "ret = Some r" "l' = ?l2"
          using Cons.prems \<open>term_value st t \<noteq> []\<close> Inr r
          by (auto simp: fetch_call_def)
        with ext r show ?thesis unfolding names
          by (intro exI[of _ "[?n]"] exI[of _ "[Inr r]"]) simp
      qed
    qed
  qed
qed

lemma filters_shape:
  assumes "search_filters env fetch endpoint ft maxCount orderBy skip l = (ret, l')"
  shows "\<exists>outs. extends l l' (if hasFilters ft then [''filters-only''] else []) outs
          \<and> (case ret of None \<Rightarrow> list_all isl outs | Some r \<Rightarrow> outs = [Inr r])"
  using assms
  by (auto simp: search_filters_def extends_def fetch_call_def push_attempt_def attempt_end_def
        split: sum.splits if_splits prod.splits)

lemma basic_shape:
  assumes "search_basic env fetch endpoint st ft maxCount orderBy skip l = (out, l')"
  shows "\<exists>p. extends l l' [''basic-listing''] [p]
          \<and> (case p of
                Inl e \<Rightarrow> out = Inl e
              | Inr r \<Rightarrow>
                  out = Inr \<lparr>res_value = resp_value r,
                             searchInfo =
                               Some \<lparr>attemptsCount = length (searchAttempts l'),
                                     strategies = searchAttempts l',
                                     originalTerms = st, filterTerms = ft\<rparr>\<rparr>)"
proof (cases "fetch (length (requests (push_attempt ''basic-listing'' l))) endpoint
                (base_params env (min 50 maxCount) orderBy skip) maxCount")
  case (Inl e)
  with assms show ?thesis
    by (intro exI[of _ "Inl e"])
       (auto simp: search_basic_def extends_def fetch_call_def push_attempt_def attempt_end_def)
next
  case (Inr r)
  with assms show ?thesis
    by (intro exI[of _ "Inr r"])
       (auto simp: search_basic_def extends_def fetch_call_def push_attempt_def attempt_end_def)
qed


lemma zip_fst_in: "e \<in> set (zip xs ys) \<Longrightarrow> fst e \<in> set xs"
  by (cases e) (auto dest: set_zip_leftD)

lemma zip_snd_in: "e \<in> set (zip xs ys) \<Longrightarrow> snd e \<in> set ys"
  by (cases e) (auto dest: set_zip_rightD)

lemma single_term_names_neq:
  "n \<in> set (single_term_names st terms) \<Longrightarrow>
     n \<noteq> ''filters-only'' \<and> n \<noteq> ''basic-listing'' \<and> n \<noteq> ''combined-search''"
  by (auto simp: single_term_names_def)

lemma progressiveSearch_shape:
  assumes run: "progressiveSearch env fetch endpoint st ft maxCount sortOrder skip = (out, l)"
  shows "\<exists>ns os n p.
           searchAttempts l = ns @ [n] \<and> produced l = os @ [p] \<and> length ns = length os
         \<and> prefix (ns @ [n]) (plan_of env st ft maxCount sortOrder skip)
         \<and> list_all no_items os
         \<and> (\<forall>e \<in> set (zip ns os). fst e = ''filters-only'' \<longrightarrow> isl (snd e))
         \<and> (n = ''basic-listing'' \<longrightarrow>
              (case p of
                 Inl e \<Rightarrow> out = Inl e
               | Inr r \<Rightarrow>
                   out = Inr \<lparr>res_value = resp_value r,
                              searchInfo =
                                Some \<lparr>attemptsCount = length (ns @ [n]), strategies = ns @ [n],
                                      originalTerms = st, filterTerms = ft\<rparr>\<rparr>))
         \<and> (n \<noteq> ''basic-listing'' \<longrightarrow>
              (\<exists>r. p = Inr r \<and> out = Inr (plain r) \<and> (n \<noteq> ''filters-only'' \<longrightarrow> has_items r)))"
proof -
  let ?ob = "''receivedDateTime '' @ sortOrder"
  let ?l0 = "\<lparr>searchAttempts = [], produced = [], requests = []\<rparr>"
  let ?cn = "if isl (buildSearchParams env st ft (min 50 maxCount) ?ob skip) then []
             else [''combined-search'']"
  let ?sn = "single_term_names st searchPriority"
  let ?fn = "if hasFilters ft then [''filters-only''] else []"
  have plan: "plan_of env st ft maxCount sortOrder skip = ?cn @ ?sn @ ?fn @ [''basic-listing'']"
    by (simp add: plan_of_def plan_def)
  obtain cr l1 where c: "search_combined env fetch endpoint st ft maxCount ?ob skip ?l0 = (cr, l1)"
    by (cases "search_combined env fetch endpoint st ft maxCount ?ob skip ?l0")
  from combined_shape[OF c] obtain co where
    ce: "extends ?l0 l1 ?cn co"
    and cc: "case cr of None \<Rightarrow> list_all no_items co | Some r \<Rightarrow> co = [Inr r] \<and> has_items r"
    by blast
  show ?thesis
  proof (cases cr)
    case (Some r)
    with c run have o: "out = Inr (plain r)" "l = l1"
      by (simp_all add: progressiveSearch_def Let_def)
    from cc Some have co: "co = [Inr r]" "has_items r" by simp_all
    with ce have cn: "?cn = [''combined-search'']"
      by (auto simp: extends_def split: if_splits)
    have "searchAttempts l = [] @ [''combined-search'']" "produced l = [] @ [Inr r]"
      using ce co cn o by (simp_all add: extends_def)
    moreover have "prefix ([] @ [''combined-search'']) (plan_of env st ft maxCount sortOrder skip)"
      unfolding plan cn by simp
    ultimately show ?thesis using o co
      by (intro exI[of _ "[]"] exI[of _ "''combined-search''"] exI[of _ "Inr r"]) simp
  next
    case None
    with cc have cno: "list_all no_items co" by simp
    have ncn: "\<forall>m \<in> set ?cn. m = ''combined-search''" by simp
    obtain sr l2 where s: "search_single_terms env fetch endpoint st ft maxCount ?ob skip
                             searchPriority l1 = (sr, l2)"
      by (cases "search_single_terms env fetch endpoint st ft maxCount ?ob skip searchPriority l1")
    from single_shape[OF s] obtain sn so where
      se: "extends l1 l2 sn so" and sp: "prefix sn ?sn"
      and sc: "case sr of
                None \<Rightarrow> sn = ?sn \<and> list_all no_items so
              | Some r \<Rightarrow> so \<noteq> [] \<and> list_all no_items (butlast so) \<and> last so = Inr r
                          \<and> has_items r"
      by blast
    have snn: "\<forall>m \<in> set sn. m \<noteq> ''filters-only'' \<and> m \<noteq> ''basic-listing''"
      using sp single_term_names_neq[of _ st searchPriority] by (auto dest: set_mono_prefix)
    show ?thesis
    proof (cases sr)
      case (Some r)
      with c s None run have o: "out = Inr (plain r)" "l = l2"
        by (simp_all add: progressiveSearch_def Let_def)
      from sc Some have so: "so \<noteq> []" "list_all no_items (butlast so)" "last so = Inr r" "has_items r"
        by simp_all
      from se so(1) have sne: "sn \<noteq> []" by (auto simp: extends_def)
      have len: "length (butlast sn) = length (butlast so)" using se by (simp add: extends_def)
      have a: "searchAttempts l = (?cn @ butlast sn) @ [last sn]"
        using ce se o sne by (simp add: extends_def)
      have b: "produced l = (co @ butlast so) @ [Inr r]"
        using ce se o so by (simp add: extends_def) (metis append_butlast_last_id)
      have len2: "length (?cn @ butlast sn) = length (co @ butlast so)"
        using ce len by (simp add: extends_def)
      have pre: "prefix ((?cn @ butlast sn) @ [last sn]) (plan_of env st ft maxCount sortOrder skip)"
        unfolding plan using sp sne by (simp add: prefix_def) (metis append.assoc)
      have noi: "list_all no_items (co @ butlast so)" using cno so by simp
      have lastn: "last sn \<noteq> ''filters-only'' \<and> last sn \<noteq> ''basic-listing''"
        using snn sne by simp
      have fo: "\<forall>e \<in> set (zip (?cn @ butlast sn) (co @ butlast so)). fst e = ''filters-only'' \<longrightarrow> isl (snd e)"
      proof
        fix e assume "e \<in> set (zip (?cn @ butlast sn) (co @ butlast so))"
        then have "fst e \<in> set (?cn @ butlast sn)" by (rule zip_fst_in)
        then have "fst e \<noteq> ''filters-only''"
          using snn by (auto dest: in_set_butlastD split: if_splits)
        then show "fst e = ''filters-only'' \<longrightarrow> isl (snd e)" by simp
      qed
      show ?thesis
        using a b len2 pre noi fo lastn o so(4)
        by (intro exI[of _ "?cn @ butlast sn"] exI[of _ "co @ butlast so"]
                  exI[of _ "last sn"] exI[of _ "Inr r"]) simp
    next
      case sNone: None
      with sc have sall: "sn = ?sn" "list_all no_items so" by simp_all
      obtain fr l3 where f: "search_filters env fetch endpoint ft maxCount ?ob skip l2 = (fr, l3)"
        by (cases "search_filters env fetch endpoint ft maxCount ?ob skip l2")
      from filters_shape[OF f] obtain fo where
        fe: "extends l2 l3 ?fn fo"
        and fc: "case fr of None \<Rightarrow> list_all isl fo | Some r \<Rightarrow> fo = [Inr r]"
        by blast
      have zipn: "fst e \<noteq> ''filters-only''" if "e \<in> set (zip (?cn @ sn) (co @ so))" for e
      proof -
        from that have "fst e \<in> set (?cn @ sn)" by (rule zip_fst_in)
        then show ?thesis using snn by (auto split: if_splits)
      qed
      have len12: "length (?cn @ sn) = length (co @ so)"
        using ce se by (simp add: extends_def)
      show ?thesis
      proof (cases fr)
        case (Some r)
        with c s f None sNone run have o: "out = Inr (plain r)" "l = l3"
          by (simp_all add: progressiveSearch_def Let_def)
        from fc Some have fo1: "fo = [Inr r]" by simp
        with fe have fn: "?fn = [''filters-only'']" by (auto simp: extends_def split: if_splits)
        have a: "searchAttempts l = (?cn @ sn) @ [''filters-only'']"
          using ce se fe o fn by (simp add: extends_def)
        have b: "produced l = (co @ so) @ [Inr r]"
          using ce se fe o fo1 by (simp add: extends_def)
        have pre: "prefix ((?cn @ sn) @ [''filters-only'']) (plan_of env st ft maxCount sortOrder skip)"
          unfolding plan sall fn by simp
        have noi: "list_all no_items (co @ so)" using cno sall by simp
        have fo: "\<forall>e \<in> set (zip (?cn @ sn) (co @ so)). fst e = ''filters-only'' \<longrightarrow> isl (snd e)"
          using zipn by blast
        show ?thesis
          using a b len12 pre noi fo o
          by (intro exI[of _ "?cn @ sn"] exI[of _ "co @ so"]
                    exI[of _ "''filters-only''"] exI[of _ "Inr r"]) simp
      next
        case fNone: None
        with fc have fall: "list_all isl fo" by simp
        from c s f None sNone fNone run
        have bs: "search_basic env fetch endpoint st ft maxCount ?ob skip l3 = (out, l)"
          by (simp add: progressiveSearch_def Let_def)
        from basic_shape[OF bs] obtain p where
          be: "extends l3 l [''basic-listing''] [p]"
          and bc: "case p of
                Inl e \<Rightarrow> out = Inl e
              | Inr r \<Rightarrow>
                  out = Inr \<lparr>res_value = resp_value r,
                             searchInfo =
                               Some \<lparr>attemptsCount = length (searchAttempts l),
                                     strategies = searchAttempts l,
                                     originalTerms = st, filterTerms = ft\<rparr>\<rparr>"
          by blast
        have a: "searchAttempts l = (?cn @ sn @ ?fn) @ [''basic-listing'']"
          using ce se fe be by (simp add: extends_def)
        have b: "produced l = (co @ so @ fo) @ [p]"
          using ce se fe be by (simp add: extends_def)
        have len: "length (?cn @ sn @ ?fn) = length (co @ so @ fo)"
          using ce se fe by (simp add: extends_def)
        have pre: "prefix ((?cn @ sn @ ?fn) @ [''basic-listing'']) (plan_of env st ft maxCount sortOrder skip)"
          unfolding plan sall by simp
        have isl_no: "list_all no_items fo"
          using fall by (induction fo) (auto simp: no_items_def split: sum.splits)
        have noi: "list_all no_items (co @ so @ fo)" using cno sall isl_no by simp
        have "zip ((?cn @ sn) @ ?fn) ((co @ so) @ fo) = zip (?cn @ sn) (co @ so) @ zip ?fn fo"
          by (rule zip_append[OF len12])
        then have zip3: "zip (?cn @ sn @ ?fn) (co @ so @ fo) = zip (?cn @ sn) (co @ so) @ zip ?fn fo"
          by (simp only: append_assoc)
        have fo: "\<forall>e \<in> set (zip (?cn @ sn @ ?fn) (co @ so @ fo)). fst e = ''filters-only'' \<longrightarrow> isl (snd e)"
        proof
          fix e assume "e \<in> set (zip (?cn @ sn @ ?fn) (co @ so @ fo))"
          then consider "e \<in> set (zip (?cn @ sn) (co @ so))" | "e \<in> set (zip ?fn fo)"
            unfolding zip3 by auto
          then show "fst e = ''filters-only'' \<longrightarrow> isl (snd e)"
          proof cases
            case 1
            then show ?thesis using zipn by blast
          next
            case 2
            then have "snd e \<in> set fo" by (rule zip_snd_in)
            then show ?thesis using fall by (simp add: list_all_iff)
          qed
        qed
        have bc': "case p of
                 Inl e \<Rightarrow> out = Inl e
               | Inr r \<Rightarrow>
                   out = Inr \<lparr>res_value = resp_value r,
                              searchInfo =
                                Some \<lparr>attemptsCount = length ((?cn @ sn @ ?fn) @ [''basic-listing'']),
                                      strategies = (?cn @ sn @ ?fn) @ [''basic-listing''],
                                      originalTerms = st, filterTerms = ft\<rparr>\<rparr>"
          using bc unfolding a .
        show ?thesis
          using a b len pre noi fo bc'
          by (intro exI[of _ "?cn @ sn @ ?fn"] exI[of _ "co @ so @ fo"]
                    exI[of _ "''basic-listing''"] exI[of _ p]) simp
      qed
    qed
  qed
qed


lemma addFilters_top: "addFilters env ps ft = Inr ps' \<Longrightarrow> p_top ps' = p_top ps"
  by (auto simp: addFilters_def Let_def split: sum.splits if_splits)

lemma buildSearchParams_top:
  "buildSearchParams env st ft count orderBy skip = Inr ps \<Longrightarrow> p_top ps = count"
  by (auto simp: buildSearchParams_def base_params_def Let_def dest!: addFilters_top split: if_splits)

lemma combined_requests:
  assumes "search_combined env fetch endpoint st ft maxCount orderBy skip l = (ret, l')"
    and "list_all (sized maxCount) (requests l)"
  shows "list_all (sized maxCount) (requests l')"
  using assms
  by (auto simp: search_combined_def fetch_call_def push_attempt_def attempt_end_def sized_def
           dest: buildSearchParams_top split: sum.splits if_splits prod.splits)

lemma single_requests:
  assumes "search_single_terms env fetch endpoint st ft maxCount orderBy skip terms l = (ret, l')"
    and "list_all (sized maxCount) (requests l)"
  shows "list_all (sized maxCount) (requests l')"
  using assms
proof (induction terms arbitrary: l)
  case Nil
  then show ?case by simp
next
  case (Cons t rest)
  show ?case
  proof (cases "term_value st t \<noteq> []")
    case False
    with Cons.prems Cons.IH[of l] show ?thesis by simp
  next
    case True
    let ?l1 = "push_attempt (''single-term-'' @ t) l"
    show ?thesis
    proof (cases "addFilters env (single_term_params env st maxCount orderBy skip t) ft")
      case (Inl e)
      have "list_all (sized maxCount) (requests (attempt_end (Inl e) ?l1))"
        using Cons.prems(2) by (simp add: attempt_end_def push_attempt_def)
      moreover have "search_single_terms env fetch endpoint st ft maxCount orderBy skip rest
                (attempt_end (Inl e) ?l1) = (ret, l')"
        using Cons.prems True Inl by simp
      ultimately show ?thesis using Cons.IH by blast
    next
      case (Inr ps)
      let ?out = "fetch (length (requests ?l1)) endpoint ps maxCount"
      let ?l2 = "attempt_end ?out (?l1\<lparr>requests := requests ?l1 @ [(ps, maxCount)]\<rparr>)"
      have "p_top ps = min 50 maxCount"
        using addFilters_top[OF Inr] by (simp add: single_term_params_def base_params_def)
      then have "sized maxCount (ps, maxCount)" by (simp add: sized_def)
      then have ok: "list_all (sized maxCount) (requests ?l2)"
        using Cons.prems(2) by (simp add: attempt_end_def push_attempt_def)
      consider "l' = ?l2" | "search_single_terms env fetch endpoint st ft maxCount orderBy skip rest ?l2 = (ret, l')"
        using Cons.prems(1) True Inr
        by (auto simp: fetch_call_def split: sum.splits if_splits)
      then show ?thesis
      proof cases
        case 1
        with ok show ?thesis by simp
      next
        case 2
        from Cons.IH[OF 2 ok] show ?thesis .
      qed
    qed
  qed
qed

lemma filters_requests:
  assumes "search_filters env fetch endpoint ft maxCount orderBy skip l = (ret, l')"
    and "list_all (sized maxCount) (requests l)"
  shows "list_all (sized maxCount) (requests l')"
  using assms
  by (auto simp: search_filters_def fetch_call_def push_attempt_def attempt_end_def sized_def
                 base_params_def
           dest!: addFilters_top split: sum.splits if_splits prod.splits)

lemma basic_requests:
  assumes "search_basic env fetch endpoint st ft maxCount orderBy skip l = (out, l')"
    and "list_all (sized maxCount) (requests l)"
  shows "list_all (sized maxCount) (requests l')"
  using assms
  by (auto simp: search_basic_def fetch_call_def push_attempt_def attempt_end_def sized_def
                 base_params_def
           split: sum.splits if_splits prod.splits)

lemma progressiveSearch_requests:
  "list_all (sized maxCount)
     (requests (snd (progressiveSearch env fetch endpoint st ft maxCount sortOrder skip)))"
proof -
  let ?ob = "''receivedDateTime '' @ sortOrder"
  let ?l0 = "\<lparr>searchAttempts = [], produced = [], requests = []\<rparr>"
  obtain cr l1 where c: "search_combined env fetch endpoint st ft maxCount ?ob skip ?l0 = (cr, l1)"
    by (cases "search_combined env fetch endpoint st ft maxCount ?ob skip ?l0")
  obtain sr l2 where s: "search_single_terms env fetch endpoint st ft maxCount ?ob skip
                             searchPriority l1 = (sr, l2)"
    by (cases "search_single_terms env fetch endpoint st ft maxCount ?ob skip searchPriority l1")
  obtain fr l3 where f: "search_filters env fetch endpoint ft maxCount ?ob skip l2 = (fr, l3)"
    by (cases "search_filters env fetch endpoint ft maxCount ?ob skip l2")
  obtain out l4 where b: "search_basic env fetch endpoint st ft maxCount ?ob skip l3 = (out, l4)"
    by (cases "search_basic env fetch endpoint st ft maxCount ?ob skip l3")
  have r1: "list_all (sized maxCount) (requests l1)" by (rule combined_requests[OF c]) simp
  have r2: "list_all (sized maxCount) (requests l2)" by (rule single_requests[OF s r1])
  have r3: "list_all (sized maxCount) (requests l3)" by (rule filters_requests[OF f r2])
  have r4: "list_all (sized maxCount) (requests l4)" by (rule basic_requests[OF b r3])
  show ?thesis
    using c s f b r1 r2 r3 r4
    by (simp add: progressiveSearch_def Let_def split: option.splits)
qed

lemma prefix_nth: "prefix xs ys \<Longrightarrow> i < length xs \<Longrightarrow> xs ! i = ys ! i"
  by (auto simp: prefix_def nth_append)

lemma in_plan_single:
  assumes "''single-term-'' @ t \<in> set (plan_of env st ft maxCount sortOrder skip)"
  shows "term_value st t \<noteq> []"
proof -
  from assms have "''single-term-'' @ t \<in> set (plan st ft)"
    by (auto simp: plan_of_def plan_def split: if_splits)
  then have "''single-term-'' @ t \<in> set (single_term_names st searchPriority)"
    by (auto simp: plan_def split: if_splits)
  then show ?thesis by (auto simp: single_term_names_def)
qed

lemma in_plan_filters:
  assumes "''filters-only'' \<in> set (plan_of env st ft maxCount sortOrder skip)"
  shows "hasFilters ft"
proof -
  from assms have "''filters-only'' \<in> set (plan st ft)"
    by (auto simp: plan_of_def plan_def split: if_splits)
  then show ?thesis
    using single_term_names_neq[of "''filters-only''" st searchPriority]
    by (auto simp: plan_def split: if_splits)
qed

text \<open>
  C2, as the code has it. The names pushed to \<open>searchAttempts\<close> are a prefix of the fixed
  order: combined (left out when building its parameters throws), the single-term
  strategies for subject, from, to, query, each only if that term was supplied,
  filters-only, only if a filter was supplied, and basic-listing. Every attempt before the
  last produced no item, and a filters-only attempt before the last threw. When the last
  attempt is the combined or a single-term strategy, its response holds at least one item
  and is returned; when it is filters-only, its response is returned whatever it holds;
  when it is basic-listing, the result is what its call produced.
\<close>

theorem progressive_cascade_order:
  assumes "progressiveSearch env fetch endpoint st ft maxCount sortOrder skip = (out, l)"
  shows "searchAttempts l \<noteq> [] \<and> length (produced l) = length (searchAttempts l)
       \<and> prefix (searchAttempts l) (plan_of env st ft maxCount sortOrder skip)
       \<and> (\<forall>t. ''single-term-'' @ t \<in> set (searchAttempts l) \<longrightarrow> term_value st t \<noteq> [])
       \<and> (''filters-only'' \<in> set (searchAttempts l) \<longrightarrow> hasFilters ft)
       \<and> list_all no_items (butlast (produced l))
       \<and> (\<forall>e \<in> set (butlast (trace l)). fst e = ''filters-only'' \<longrightarrow> isl (snd e))
       \<and> (last (searchAttempts l) \<noteq> ''filters-only'' \<and> last (searchAttempts l) \<noteq> ''basic-listing''
            \<longrightarrow> (\<exists>r. last (produced l) = Inr r \<and> has_items r \<and> out = Inr (plain r)))
       \<and> (last (searchAttempts l) = ''filters-only''
            \<longrightarrow> (\<exists>r. last (produced l) = Inr r \<and> out = Inr (plain r)))
       \<and> (last (searchAttempts l) = ''basic-listing''
            \<longrightarrow> map_sum id res_value out = map_sum id resp_value (last (produced l)))"
proof -
  from progressiveSearch_shape[OF assms] obtain ns os n p where
    a: "searchAttempts l = ns @ [n]" and b: "produced l = os @ [p]" and len: "length ns = length os"
    and pre: "prefix (ns @ [n]) (plan_of env st ft maxCount sortOrder skip)"
    and noi: "list_all no_items os"
    and fo: "\<forall>e \<in> set (zip ns os). fst e = ''filters-only'' \<longrightarrow> isl (snd e)"
    and basic: "n = ''basic-listing'' \<longrightarrow>
              (case p of
                 Inl e \<Rightarrow> out = Inl e
               | Inr r \<Rightarrow>
                   out = Inr \<lparr>res_value = resp_value r,
                              searchInfo =
                                Some \<lparr>attemptsCount = length (ns @ [n]), strategies = ns @ [n],
                                      originalTerms = st, filterTerms = ft\<rparr>\<rparr>)"
    and early: "n \<noteq> ''basic-listing'' \<longrightarrow>
              (\<exists>r. p = Inr r \<and> out = Inr (plain r) \<and> (n \<noteq> ''filters-only'' \<longrightarrow> has_items r))"
    by blast
  have sub: "set (searchAttempts l) \<subseteq> set (plan_of env st ft maxCount sortOrder skip)"
    using set_mono_prefix[OF pre] a by simp
  have tr: "butlast (trace l) = zip ns os"
    using a b len by (simp add: trace_def)
  have c1: "searchAttempts l \<noteq> []" "length (produced l) = length (searchAttempts l)"
    using a b len by simp_all
  have c2: "prefix (searchAttempts l) (plan_of env st ft maxCount sortOrder skip)"
    using pre a by simp
  have c3: "\<forall>t. ''single-term-'' @ t \<in> set (searchAttempts l) \<longrightarrow> term_value st t \<noteq> []"
    using sub in_plan_single by blast
  have c4: "''filters-only'' \<in> set (searchAttempts l) \<longrightarrow> hasFilters ft"
    using sub in_plan_filters by blast
  have c5: "list_all no_items (butlast (produced l))" using noi b by simp
  have c6: "\<forall>e \<in> set (butlast (trace l)). fst e = ''filters-only'' \<longrightarrow> isl (snd e)"
    using fo tr by simp
  have c7: "last (searchAttempts l) \<noteq> ''filters-only'' \<and> last (searchAttempts l) \<noteq> ''basic-listing''
            \<longrightarrow> (\<exists>r. last (produced l) = Inr r \<and> has_items r \<and> out = Inr (plain r))"
    using early a b by auto
  have c8: "last (searchAttempts l) = ''filters-only''
            \<longrightarrow> (\<exists>r. last (produced l) = Inr r \<and> out = Inr (plain r))"
    using early a b by auto
  have c9: "last (searchAttempts l) = ''basic-listing''
            \<longrightarrow> map_sum id res_value out = map_sum id resp_value (last (produced l))"
    using basic a b by (auto split: sum.splits)
  show ?thesis using c1 c2 c3 c4 c5 c6 c7 c8 c9 by blast
qed

lemma formatSearchResults_strategyUsed:
  "formatSearchResults emailList r sortOrder skip =
     (if no_results r then ''No emails found matching your search criteria.''
      else
        ''Found '' @ showNat (length (the (res_value r))) @ '' emails''
        @ infoStr r sortOrder skip @ '':''
        @ (case strategyUsed r of
             None \<Rightarrow> []
           | Some name \<Rightarrow> [CHR 0x0A] @ ''(Search used '' @ name @ '' strategy)'')
        @ [CHR 0x0A, CHR 0x0A] @ emailList (the (res_value r)) skip)"
  by (simp add: formatSearchResults_def strategyUsed_def additionalInfo_def split: option.splits)


text \<open>
  C3, as the code has it. When the cascade ends with basic-listing and returns a result, the
  result carries \<open>_searchInfo\<close>: its strategies are all the attempted names in attempt
  order and its count is their number. \<open>formatSearchResults\<close> names basic-listing for it
  when it holds at least one message, in the line \<open>(Search used basic-listing strategy)\<close>;
  when it holds none, the reply is only \<open>No emails found matching your search criteria.\<close>
  and names no strategy. When the cascade ends with an earlier strategy, the result is the
  response of that attempt as it came, with no \<open>_searchInfo\<close>: no strategy is reported and
  the reply has no strategy line.
\<close>

theorem strategy_reported_only_by_basic_listing:
  assumes "progressiveSearch env fetch endpoint st ft maxCount sortOrder skip = (out, l)"
  shows "(last (searchAttempts l) = ''basic-listing'' \<longrightarrow>
           (\<forall>r. out = Inr r \<longrightarrow>
              (\<exists>i. searchInfo r = Some i \<and> strategies i = searchAttempts l
                   \<and> attemptsCount i = length (searchAttempts l))
              \<and> strategyUsed r = (if no_results r then None else Some ''basic-listing'')
              \<and> formatSearchResults emailList r sortOrder skip
                  = (if no_results r then ''No emails found matching your search criteria.''
                     else
                       ''Found '' @ showNat (length (the (res_value r))) @ '' emails''
                       @ infoStr r sortOrder skip @ '':'' @ [CHR 0x0A]
                       @ ''(Search used basic-listing strategy)''
                       @ [CHR 0x0A, CHR 0x0A] @ emailList (the (res_value r)) skip)))
       \<and> (last (searchAttempts l) \<noteq> ''basic-listing'' \<longrightarrow>
           (\<exists>r. out = Inr r \<and> searchInfo r = None \<and> strategyUsed r = None
                \<and> formatSearchResults emailList r sortOrder skip
                    = (if no_results r then ''No emails found matching your search criteria.''
                       else
                         ''Found '' @ showNat (length (the (res_value r))) @ '' emails''
                         @ infoStr r sortOrder skip @ '':''
                         @ [CHR 0x0A, CHR 0x0A] @ emailList (the (res_value r)) skip)
                \<and> Inr \<lparr>resp_value = res_value r\<rparr> = last (produced l)))"
proof -
  from progressiveSearch_shape[OF assms] obtain ns os n p where
    a: "searchAttempts l = ns @ [n]" and b: "produced l = os @ [p]"
    and basic: "n = ''basic-listing'' \<longrightarrow>
              (case p of
                 Inl e \<Rightarrow> out = Inl e
               | Inr r \<Rightarrow>
                   out = Inr \<lparr>res_value = resp_value r,
                              searchInfo =
                                Some \<lparr>attemptsCount = length (ns @ [n]), strategies = ns @ [n],
                                      originalTerms = st, filterTerms = ft\<rparr>\<rparr>)"
    and early: "n \<noteq> ''basic-listing'' \<longrightarrow>
              (\<exists>r. p = Inr r \<and> out = Inr (plain r) \<and> (n \<noteq> ''filters-only'' \<longrightarrow> has_items r))"
    by blast
  have c1: "(\<exists>i. searchInfo r = Some i \<and> strategies i = searchAttempts l
                   \<and> attemptsCount i = length (searchAttempts l))
              \<and> strategyUsed r = (if no_results r then None else Some ''basic-listing'')
              \<and> formatSearchResults emailList r sortOrder skip
                  = (if no_results r then ''No emails found matching your search criteria.''
                     else
                       ''Found '' @ showNat (length (the (res_value r))) @ '' emails''
                       @ infoStr r sortOrder skip @ '':'' @ [CHR 0x0A]
                       @ ''(Search used basic-listing strategy)''
                       @ [CHR 0x0A, CHR 0x0A] @ emailList (the (res_value r)) skip)"
    if last: "last (searchAttempts l) = ''basic-listing''" and out: "out = Inr r" for r
  proof -
    from last a have n: "n = ''basic-listing''" by simp
    with basic out obtain v where
      r: "r = \<lparr>res_value = v,
               searchInfo =
                 Some \<lparr>attemptsCount = length (ns @ [n]), strategies = ns @ [n],
                       originalTerms = st, filterTerms = ft\<rparr>\<rparr>"
      by (cases p) auto
    have i: "\<exists>i. searchInfo r = Some i \<and> strategies i = searchAttempts l
                   \<and> attemptsCount i = length (searchAttempts l)"
      by (simp add: r a)
    have s: "strategyUsed r = (if no_results r then None else Some ''basic-listing'')"
      by (simp add: strategyUsed_def r n)
    have f: "formatSearchResults emailList r sortOrder skip
                  = (if no_results r then ''No emails found matching your search criteria.''
                     else
                       ''Found '' @ showNat (length (the (res_value r))) @ '' emails''
                       @ infoStr r sortOrder skip @ '':'' @ [CHR 0x0A]
                       @ ''(Search used basic-listing strategy)''
                       @ [CHR 0x0A, CHR 0x0A] @ emailList (the (res_value r)) skip)"
      unfolding formatSearchResults_strategyUsed s by simp
    from i s f show ?thesis by (intro conjI)
  qed
  have c2: "\<exists>r. out = Inr r \<and> searchInfo r = None \<and> strategyUsed r = None
                \<and> formatSearchResults emailList r sortOrder skip
                    = (if no_results r then ''No emails found matching your search criteria.''
                       else
                         ''Found '' @ showNat (length (the (res_value r))) @ '' emails''
                         @ infoStr r sortOrder skip @ '':''
                         @ [CHR 0x0A, CHR 0x0A] @ emailList (the (res_value r)) skip)
                \<and> Inr \<lparr>resp_value = res_value r\<rparr> = last (produced l)"
    if last: "last (searchAttempts l) \<noteq> ''basic-listing''"
  proof -
    from last a have n: "n \<noteq> ''basic-listing''" by simp
    with early obtain q where p: "p = Inr q" and out: "out = Inr (plain q)" by blast
    have i: "searchInfo (plain q) = None" by (simp add: plain_def)
    have s: "strategyUsed (plain q) = None" by (simp add: strategyUsed_def plain_def)
    have f: "formatSearchResults emailList (plain q) sortOrder skip
                    = (if no_results (plain q) then ''No emails found matching your search criteria.''
                       else
                         ''Found '' @ showNat (length (the (res_value (plain q)))) @ '' emails''
                         @ infoStr (plain q) sortOrder skip @ '':''
                         @ [CHR 0x0A, CHR 0x0A] @ emailList (the (res_value (plain q))) skip)"
      unfolding formatSearchResults_strategyUsed s by simp
    have e: "Inr \<lparr>resp_value = res_value (plain q)\<rparr> = last (produced l)"
      by (simp add: b p plain_def)
    from out i s f e show ?thesis by (intro exI[of _ "plain q"] conjI)
  qed
  from c1 c2 show ?thesis by blast
qed


text \<open>
  C5, as the code has it. The search throws exactly when its last attempt is basic-listing
  and that attempt threw, and it throws that error. An attempt that threw is either
  basic-listing or followed by a further attempt. An attempt of the combined or of a
  single-term strategy that produced no item, by an error or by an empty response, is
  followed by a further attempt. Each further attempt is the next strategy of the fixed
  order.
\<close>

theorem search_errors_absorbed_except_last:
  assumes "progressiveSearch env fetch endpoint st ft maxCount sortOrder skip = (out, l)"
  shows "(\<forall>e. out = Inl e \<longleftrightarrow>
              last (searchAttempts l) = ''basic-listing'' \<and> last (produced l) = Inl e)
       \<and> (\<forall>i < length (produced l).
            isl (produced l ! i) \<longrightarrow>
              searchAttempts l ! i = ''basic-listing'' \<or> Suc i < length (searchAttempts l))
       \<and> (\<forall>i < length (produced l).
            no_items (produced l ! i) \<longrightarrow>
              searchAttempts l ! i = ''filters-only'' \<or> searchAttempts l ! i = ''basic-listing''
              \<or> Suc i < length (searchAttempts l))
       \<and> (\<forall>i. Suc i < length (searchAttempts l) \<longrightarrow>
            searchAttempts l ! Suc i = plan_of env st ft maxCount sortOrder skip ! Suc i)"
proof -
  from progressiveSearch_shape[OF assms] obtain ns os n p where
    a: "searchAttempts l = ns @ [n]" and b: "produced l = os @ [p]" and len: "length ns = length os"
    and pre: "prefix (ns @ [n]) (plan_of env st ft maxCount sortOrder skip)"
    and basic: "n = ''basic-listing'' \<longrightarrow>
              (case p of
                 Inl e \<Rightarrow> out = Inl e
               | Inr r \<Rightarrow>
                   out = Inr \<lparr>res_value = resp_value r,
                              searchInfo =
                                Some \<lparr>attemptsCount = length (ns @ [n]), strategies = ns @ [n],
                                      originalTerms = st, filterTerms = ft\<rparr>\<rparr>)"
    and early: "n \<noteq> ''basic-listing'' \<longrightarrow>
              (\<exists>r. p = Inr r \<and> out = Inr (plain r) \<and> (n \<noteq> ''filters-only'' \<longrightarrow> has_items r))"
    by blast
  have c1: "\<forall>e. out = Inl e \<longleftrightarrow>
              last (searchAttempts l) = ''basic-listing'' \<and> last (produced l) = Inl e"
    using basic early a b by (cases "n = ''basic-listing''") (auto split: sum.splits)
  have c2: "\<forall>i < length (produced l).
            isl (produced l ! i) \<longrightarrow>
              searchAttempts l ! i = ''basic-listing'' \<or> Suc i < length (searchAttempts l)"
  proof (intro allI impI)
    fix i assume i: "i < length (produced l)" and e: "isl (produced l ! i)"
    show "searchAttempts l ! i = ''basic-listing'' \<or> Suc i < length (searchAttempts l)"
    proof (cases "i = length os")
      case True
      then have "produced l ! i = p" "searchAttempts l ! i = n"
        using a b len by (simp_all add: nth_append)
      with e early show ?thesis by auto
    next
      case False
      with i a b len show ?thesis by simp
    qed
  qed
  have c3: "\<forall>i < length (produced l).
            no_items (produced l ! i) \<longrightarrow>
              searchAttempts l ! i = ''filters-only'' \<or> searchAttempts l ! i = ''basic-listing''
              \<or> Suc i < length (searchAttempts l)"
  proof (intro allI impI)
    fix i assume i: "i < length (produced l)" and e: "no_items (produced l ! i)"
    show "searchAttempts l ! i = ''filters-only'' \<or> searchAttempts l ! i = ''basic-listing''
              \<or> Suc i < length (searchAttempts l)"
    proof (cases "i = length os")
      case True
      then have "produced l ! i = p" "searchAttempts l ! i = n"
        using a b len by (simp_all add: nth_append)
      with e early show ?thesis by (auto simp: no_items_def)
    next
      case False
      with i a b len show ?thesis by simp
    qed
  qed
  have c4: "\<forall>i. Suc i < length (searchAttempts l) \<longrightarrow>
            searchAttempts l ! Suc i = plan_of env st ft maxCount sortOrder skip ! Suc i"
    using prefix_nth[OF pre] a by simp
  show ?thesis using c1 c2 c3 c4 by blast
qed

text \<open>
  C2 fails as stated: with the unread filter and no search term, against a mailbox in which no
  call finds anything, the cascade ends at filters-only with an empty result, and
  basic-listing, the next strategy of the order, is never attempted.
\<close>

theorem progressive_cascade_counterexample:
  "fst (progressiveSearch env0 fetch_nothing ''me/mailFolders/inbox/messages'' no_terms
          unread_only 10 ''desc'' 0)
     = Inr \<lparr>res_value = Some [], searchInfo = None\<rparr>
   \<and> searchAttempts (snd (progressiveSearch env0 fetch_nothing ''me/mailFolders/inbox/messages''
          no_terms unread_only 10 ''desc'' 0))
     = [''combined-search'', ''filters-only'']
   \<and> plan no_terms unread_only = [''combined-search'', ''filters-only'', ''basic-listing'']"
  by code_simp

theorem progressive_cascade_order_witness:
  "progressiveSearch env0 (fetch_error_at 1 3) ''me/mailFolders/inbox/messages'' subject_invoice
      unread_only 10 ''desc'' 0
     = (Inr \<lparr>res_value = Some [], searchInfo = None\<rparr>,
        snd (progressiveSearch env0 (fetch_error_at 1 3) ''me/mailFolders/inbox/messages''
               subject_invoice unread_only 10 ''desc'' 0))
   \<and> searchAttempts (snd (progressiveSearch env0 (fetch_error_at 1 3)
          ''me/mailFolders/inbox/messages'' subject_invoice unread_only 10 ''desc'' 0))
     = [''combined-search'', ''single-term-subject'', ''filters-only'']
   \<and> prefix [''combined-search'', ''single-term-subject'', ''filters-only'']
        (plan_of env0 subject_invoice unread_only 10 ''desc'' 0)
   \<and> hasFilters unread_only"
proof -
  let ?run = "progressiveSearch env0 (fetch_error_at 1 3) ''me/mailFolders/inbox/messages''
                subject_invoice unread_only 10 ''desc'' 0"
  have out: "fst ?run = Inr \<lparr>res_value = Some [], searchInfo = None\<rparr>" by code_simp
  have att: "searchAttempts (snd ?run)
               = [''combined-search'', ''single-term-subject'', ''filters-only'']"
    by code_simp
  have run: "?run = (Inr \<lparr>res_value = Some [], searchInfo = None\<rparr>, snd ?run)"
    using out by (metis prod.collapse)
  from progressive_cascade_order[OF run]
  have "prefix (searchAttempts (snd ?run)) (plan_of env0 subject_invoice unread_only 10 ''desc'' 0)"
    and "''filters-only'' \<in> set (searchAttempts (snd ?run)) \<longrightarrow> hasFilters unread_only"
    by blast+
  with att have "prefix [''combined-search'', ''single-term-subject'', ''filters-only'']
        (plan_of env0 subject_invoice unread_only 10 ''desc'' 0)" "hasFilters unread_only"
    by simp_all
  with run att show ?thesis by blast
qed

text \<open>
  C3 fails as stated: with the subject term \<open>invoice\<close>, when the combined call finds nothing
  and the single-term call for the subject finds a message, the result carries no
  \<open>_searchInfo\<close>, no strategy is reported, and the reply has no strategy line.
\<close>

theorem strategy_used_counterexample:
  "fst (progressiveSearch env0 (fetch_found_at 1) ''me/mailFolders/inbox/messages''
          subject_invoice no_filters 10 ''desc'' 0)
     = Inr \<lparr>res_value = Some [''m1''], searchInfo = None\<rparr>
   \<and> searchAttempts (snd (progressiveSearch env0 (fetch_found_at 1)
          ''me/mailFolders/inbox/messages'' subject_invoice no_filters 10 ''desc'' 0))
     = [''combined-search'', ''single-term-subject'']
   \<and> strategyUsed \<lparr>res_value = Some [''m1''], searchInfo = None\<rparr> = None
   \<and> formatSearchResults (\<lambda>ms skip. concat ms) \<lparr>res_value = Some [''m1''], searchInfo = None\<rparr>
        ''desc'' 0
      = ''Found 1 emails (newest first):'' @ [CHR 0x0A, CHR 0x0A] @ ''m1''"
  by code_simp


theorem strategy_reported_only_by_basic_listing_witness:
  "fst (progressiveSearch env0 (fetch_found_at 2) ''me/mailFolders/inbox/messages''
          subject_invoice no_filters 10 ''desc'' 0)
     = Inr \<lparr>res_value = Some [''m1''],
             searchInfo =
               Some \<lparr>attemptsCount = 3,
                     strategies = [''combined-search'', ''single-term-subject'', ''basic-listing''],
                     originalTerms = subject_invoice, filterTerms = no_filters\<rparr>\<rparr>
   \<and> strategyUsed
        \<lparr>res_value = Some [''m1''],
         searchInfo =
           Some \<lparr>attemptsCount = 3,
                 strategies = [''combined-search'', ''single-term-subject'', ''basic-listing''],
                 originalTerms = subject_invoice, filterTerms = no_filters\<rparr>\<rparr>
       = Some ''basic-listing''
   \<and> formatSearchResults (\<lambda>ms skip. concat ms)
        \<lparr>res_value = Some [''m1''],
         searchInfo =
           Some \<lparr>attemptsCount = 3,
                 strategies = [''combined-search'', ''single-term-subject'', ''basic-listing''],
                 originalTerms = subject_invoice, filterTerms = no_filters\<rparr>\<rparr>
        ''desc'' 0
       = ''Found 1 emails (newest first):'' @ [CHR 0x0A] @ ''(Search used basic-listing strategy)''
         @ [CHR 0x0A, CHR 0x0A] @ ''m1''
   \<and> fst (progressiveSearch env0 fetch_nothing ''me/mailFolders/inbox/messages''
          subject_invoice no_filters 10 ''desc'' 0)
     = Inr \<lparr>res_value = Some [],
             searchInfo =
               Some \<lparr>attemptsCount = 3,
                     strategies = [''combined-search'', ''single-term-subject'', ''basic-listing''],
                     originalTerms = subject_invoice, filterTerms = no_filters\<rparr>\<rparr>
   \<and> strategyUsed
        \<lparr>res_value = Some [],
         searchInfo =
           Some \<lparr>attemptsCount = 3,
                 strategies = [''combined-search'', ''single-term-subject'', ''basic-listing''],
                 originalTerms = subject_invoice, filterTerms = no_filters\<rparr>\<rparr>
       = None
   \<and> formatSearchResults (\<lambda>ms skip. concat ms)
        \<lparr>res_value = Some [],
         searchInfo =
           Some \<lparr>attemptsCount = 3,
                 strategies = [''combined-search'', ''single-term-subject'', ''basic-listing''],
                 originalTerms = subject_invoice, filterTerms = no_filters\<rparr>\<rparr>
        ''desc'' 0
       = ''No emails found matching your search criteria.''"
proof -
  let ?run = "progressiveSearch env0 (fetch_found_at 2) ''me/mailFolders/inbox/messages''
                subject_invoice no_filters 10 ''desc'' 0"
  let ?i = "\<lparr>attemptsCount = 3,
             strategies = [''combined-search'', ''single-term-subject'', ''basic-listing''],
             originalTerms = subject_invoice, filterTerms = no_filters\<rparr>"
  let ?r = "\<lparr>res_value = Some [''m1''], searchInfo = Some ?i\<rparr>"
  let ?empty_run = "progressiveSearch env0 fetch_nothing ''me/mailFolders/inbox/messages''
                subject_invoice no_filters 10 ''desc'' 0"
  let ?empty = "\<lparr>res_value = Some [], searchInfo = Some ?i\<rparr>"
  let ?e = "\<lambda>(ms::message list) (skip::int). concat ms"
  have out: "fst ?run = Inr ?r" by code_simp
  have att: "last (searchAttempts (snd ?run)) = ''basic-listing''" by code_simp
  have run: "?run = (Inr ?r, snd ?run)" using out by (metis prod.collapse)
  have nr: "\<not> no_results ?r" by (simp add: no_results_def)
  have len: "showNat (length (the (res_value ?r))) = ''1''" "infoStr ?r ''desc'' 0 = '' (newest first)''"
    by (simp_all add: showNat.simps digit_char_def infoStr_def sortInfo_def)
  from strategy_reported_only_by_basic_listing[OF run, of ?e] att
  have t: "strategyUsed ?r = (if no_results ?r then None else Some ''basic-listing'')
        \<and> formatSearchResults ?e ?r ''desc'' 0
                  = (if no_results ?r then ''No emails found matching your search criteria.''
                     else
                       ''Found '' @ showNat (length (the (res_value ?r))) @ '' emails''
                       @ infoStr ?r ''desc'' 0 @ '':'' @ [CHR 0x0A]
                       @ ''(Search used basic-listing strategy)''
                       @ [CHR 0x0A, CHR 0x0A] @ ?e (the (res_value ?r)) 0)"
    by blast
  have s1: "strategyUsed ?r = Some ''basic-listing''" using t nr by simp
  have f1: "formatSearchResults ?e ?r ''desc'' 0
       = ''Found 1 emails (newest first):'' @ [CHR 0x0A] @ ''(Search used basic-listing strategy)''
         @ [CHR 0x0A, CHR 0x0A] @ ''m1''"
    using t nr len by simp
  have out0: "fst ?empty_run = Inr ?empty" by code_simp
  have att0: "last (searchAttempts (snd ?empty_run)) = ''basic-listing''" by code_simp
  have run0: "?empty_run = (Inr ?empty, snd ?empty_run)" using out0 by (metis prod.collapse)
  have nr0: "no_results ?empty" by (simp add: no_results_def)
  from strategy_reported_only_by_basic_listing[OF run0, of ?e] att0
  have t0: "strategyUsed ?empty = (if no_results ?empty then None else Some ''basic-listing'')
        \<and> formatSearchResults ?e ?empty ''desc'' 0
                  = (if no_results ?empty then ''No emails found matching your search criteria.''
                     else
                       ''Found '' @ showNat (length (the (res_value ?empty))) @ '' emails''
                       @ infoStr ?empty ''desc'' 0 @ '':'' @ [CHR 0x0A]
                       @ ''(Search used basic-listing strategy)''
                       @ [CHR 0x0A, CHR 0x0A] @ ?e (the (res_value ?empty)) 0)"
    by blast
  have s0: "strategyUsed ?empty = None" using t0 nr0 by simp
  have f0: "formatSearchResults ?e ?empty ''desc'' 0 = ''No emails found matching your search criteria.''"
    using t0 nr0 by simp
  from out s1 f1 out0 s0 f0 show ?thesis by (intro conjI)
qed

text \<open>
  C5 fails as stated: with the unread filter and no search term, an error thrown by the
  filters-only call leads on to basic-listing and its messages, while zero results from the
  same call end the search with an empty result. The two fetches differ in that call only.
\<close>

theorem search_error_counterexample:
  "fst (progressiveSearch env0 (fetch_error_at 1 2) ''me/mailFolders/inbox/messages'' no_terms
          unread_only 10 ''desc'' 0)
     = Inr \<lparr>res_value = Some [''m1''],
             searchInfo =
               Some \<lparr>attemptsCount = 3,
                     strategies = [''combined-search'', ''filters-only'', ''basic-listing''],
                     originalTerms = no_terms, filterTerms = unread_only\<rparr>\<rparr>
   \<and> fst (progressiveSearch env0 (fetch_found_at 2) ''me/mailFolders/inbox/messages'' no_terms
          unread_only 10 ''desc'' 0)
     = Inr \<lparr>res_value = Some [], searchInfo = None\<rparr>
   \<and> fetch_error_at 1 2 1 = (\<lambda>endpoint ps maxCount. Inl (ApiError ''503''))
   \<and> fetch_found_at 2 1 = (\<lambda>endpoint ps maxCount. Inr \<lparr>resp_value = Some []\<rparr>)"
proof -
  have "fst (progressiveSearch env0 (fetch_error_at 1 2) ''me/mailFolders/inbox/messages'' no_terms
          unread_only 10 ''desc'' 0)
     = Inr \<lparr>res_value = Some [''m1''],
             searchInfo =
               Some \<lparr>attemptsCount = 3,
                     strategies = [''combined-search'', ''filters-only'', ''basic-listing''],
                     originalTerms = no_terms, filterTerms = unread_only\<rparr>\<rparr>"
    by code_simp
  moreover have "fst (progressiveSearch env0 (fetch_found_at 2) ''me/mailFolders/inbox/messages''
          no_terms unread_only 10 ''desc'' 0)
     = Inr \<lparr>res_value = Some [], searchInfo = None\<rparr>"
    by code_simp
  moreover have "fetch_error_at 1 2 1 = (\<lambda>endpoint ps maxCount. Inl (ApiError ''503''))"
    by (simp add: fetch_error_at_def fun_eq_iff)
  moreover have "fetch_found_at 2 1 = (\<lambda>endpoint ps maxCount. Inr \<lparr>resp_value = Some []\<rparr>)"
    by (simp add: fetch_found_at_def fun_eq_iff)
  ultimately show ?thesis by blast
qed

theorem search_errors_absorbed_except_last_witness:
  "fst (progressiveSearch env0 (fetch_error_at 2 7) ''me/mailFolders/inbox/messages''
          subject_invoice no_filters 10 ''desc'' 0)
     = Inl (ApiError ''503'')
   \<and> last (searchAttempts (snd (progressiveSearch env0 (fetch_error_at 2 7)
          ''me/mailFolders/inbox/messages'' subject_invoice no_filters 10 ''desc'' 0)))
     = ''basic-listing''
   \<and> last (produced (snd (progressiveSearch env0 (fetch_error_at 2 7)
          ''me/mailFolders/inbox/messages'' subject_invoice no_filters 10 ''desc'' 0)))
     = Inl (ApiError ''503'')
   \<and> fst (progressiveSearch env0 (fetch_error_at 1 3) ''me/mailFolders/inbox/messages''
          subject_invoice no_filters 10 ''desc'' 0)
     = Inr \<lparr>res_value = Some [], searchInfo =
               Some \<lparr>attemptsCount = 3,
                     strategies = [''combined-search'', ''single-term-subject'', ''basic-listing''],
                     originalTerms = subject_invoice, filterTerms = no_filters\<rparr>\<rparr>"
proof -
  let ?run = "progressiveSearch env0 (fetch_error_at 2 7) ''me/mailFolders/inbox/messages''
                subject_invoice no_filters 10 ''desc'' 0"
  have out: "fst ?run = Inl (ApiError ''503'')" by code_simp
  have run: "?run = (Inl (ApiError ''503''), snd ?run)" using out by (metis prod.collapse)
  from search_errors_absorbed_except_last[OF run]
  have "last (searchAttempts (snd ?run)) = ''basic-listing''
        \<and> last (produced (snd ?run)) = Inl (ApiError ''503'')"
    by blast
  moreover have "fst (progressiveSearch env0 (fetch_error_at 1 3) ''me/mailFolders/inbox/messages''
          subject_invoice no_filters 10 ''desc'' 0)
     = Inr \<lparr>res_value = Some [], searchInfo =
               Some \<lparr>attemptsCount = 3,
                     strategies = [''combined-search'', ''single-term-subject'', ''basic-listing''],
                     originalTerms = subject_invoice, filterTerms = no_filters\<rparr>\<rparr>"
    by code_simp
  ultimately show ?thesis using out by blast
qed

section \<open>Properties of the paginated fetch\<close>

lemma fetch_pages_items:
  "length (f_items (fetch_pages remote remaining acc)) \<le> length (f_items acc) + remaining"
proof (induction remote remaining acc rule: fetch_pages.induct)
  case (1 remote remaining acc)
  show ?case
  proof (cases "remaining = 0")
    case True
    then show ?thesis by (simp add: fetch_pages.simps)
  next
    case False
    let ?rq = "\<lparr>pr_size = min serverPageCap remaining, pr_budget = remaining\<rparr>"
    let ?acc1 = "acc\<lparr>f_pages := f_pages acc @ [?rq]\<rparr>"
    show ?thesis
    proof (cases "remote (length (f_pages acc)) ?rq")
      case (Inl e)
      with False show ?thesis by (simp add: fetch_pages.simps[of remote remaining acc])
    next
      case (Inr p)
      let ?got = "take (pr_size ?rq) (items p)"
      let ?acc2 = "?acc1\<lparr>f_items := f_items ?acc1 @ ?got\<rparr>"
      have le: "length ?got \<le> remaining" by simp
      show ?thesis
      proof (cases "length (items p) < pr_size ?rq \<or> \<not> has_more p")
        case True
        with False Inr have "fetch_pages remote remaining acc = ?acc2"
          by (auto simp: fetch_pages.simps[of remote remaining acc] Let_def)
        with le show ?thesis by simp
      next
        case stop: False
        have ih: "length (f_items (fetch_pages remote (remaining - length ?got) ?acc2))
                \<le> length (f_items ?acc2) + (remaining - length ?got)"
          using "1.IH"[OF False refl refl Inr refl refl] stop by simp
        have unf: "fetch_pages remote remaining acc
                     = fetch_pages remote (remaining - length ?got) ?acc2"
          using False Inr stop by (auto simp: fetch_pages.simps[of remote remaining acc] Let_def)
        have "length (f_items ?acc2) + (remaining - length ?got)
                = length (f_items acc) + remaining"
          using le by simp
        with ih unf show ?thesis by simp
      qed
    qed
  qed
qed

lemma fetch_pages_requests:
  "\<exists>new. f_pages (fetch_pages remote remaining acc) = f_pages acc @ new
         \<and> budgets_ok remaining new"
proof (induction remote remaining acc rule: fetch_pages.induct)
  case (1 remote remaining acc)
  show ?case
  proof (cases "remaining = 0")
    case True
    then show ?thesis by (simp add: fetch_pages.simps)
  next
    case False
    let ?rq = "\<lparr>pr_size = min serverPageCap remaining, pr_budget = remaining\<rparr>"
    let ?acc1 = "acc\<lparr>f_pages := f_pages acc @ [?rq]\<rparr>"
    show ?thesis
    proof (cases "remote (length (f_pages acc)) ?rq")
      case (Inl e)
      with False have "f_pages (fetch_pages remote remaining acc) = f_pages acc @ [?rq]"
        by (simp add: fetch_pages.simps[of remote remaining acc])
      moreover have "budgets_ok remaining [?rq]" using False by simp
      ultimately show ?thesis by blast
    next
      case (Inr p)
      let ?got = "take (pr_size ?rq) (items p)"
      let ?acc2 = "?acc1\<lparr>f_items := f_items ?acc1 @ ?got\<rparr>"
      show ?thesis
      proof (cases "length (items p) < pr_size ?rq \<or> \<not> has_more p")
        case True
        with False Inr have "f_pages (fetch_pages remote remaining acc) = f_pages acc @ [?rq]"
          by (auto simp: fetch_pages.simps[of remote remaining acc] Let_def)
        moreover have "budgets_ok remaining [?rq]" using False by simp
        ultimately show ?thesis by blast
      next
        case stop: False
        then have s1: "\<not> length (items p) < pr_size ?rq" by blast
        have s2: "pr_size ?rq = min serverPageCap remaining" by simp
        from s1 s2 have "min serverPageCap remaining \<le> length (items p)" by linarith
        then have eq: "length ?got = min serverPageCap remaining"
          by (simp only: length_take page_request.simps min.absorb2)
        from "1.IH"[OF False refl refl Inr refl refl] stop obtain new where
          n: "f_pages (fetch_pages remote (remaining - length ?got) ?acc2) = f_pages ?acc2 @ new"
             "budgets_ok (remaining - length ?got) new"
          by auto
        have "f_pages (fetch_pages remote remaining acc) = f_pages acc @ (?rq # new)"
          using False Inr stop n(1) by (auto simp: fetch_pages.simps[of remote remaining acc] Let_def)
        moreover have "budgets_ok remaining (?rq # new)"
          using False n(2) eq by simp
        ultimately show ?thesis by blast
      qed
    qed
  qed
qed

lemma budgets_ok_sizes:
  "budgets_ok remaining pages \<Longrightarrow> rq \<in> set pages \<Longrightarrow>
     pr_size rq = min serverPageCap (pr_budget rq) \<and> 0 < pr_budget rq"
  by (induction pages arbitrary: remaining) auto

lemma budgets_ok_sum:
  "budgets_ok remaining pages \<Longrightarrow> sum_list (map pr_size pages) \<le> remaining"
proof (induction pages arbitrary: remaining)
  case Nil
  then show ?case by simp
next
  case (Cons a pages)
  from Cons.prems have b: "budgets_ok (remaining - pr_size a) pages" by auto
  have "sum_list (map pr_size pages) \<le> remaining - pr_size a" by (rule Cons.IH[OF b])
  moreover have "pr_size a \<le> remaining" using Cons.prems by simp
  ultimately show ?case by simp
qed


text \<open>
  C7. Whatever the server returns, the paginated fetch returns at most the requested
  maximum; every page request is issued with a budget left and is sized to the minimum of
  the cap 50 and the remaining budget, which is the maximum less the sizes of the pages
  before it, so that no page is requested once the maximum is reached; the sizes add up to
  at most the maximum. Every call that \<open>progressiveSearch\<close> makes passes
  \<open>$top = min(50, maxCount)\<close> and \<open>maxCount\<close> as the budget; the list handler passes as the
  budget its requested count, which is \<open>args.count || 10\<close>, and \<open>$top\<close> as the minimum of 50
  and that count.
\<close>

theorem paginated_fetch_within_budget:
  "int (length (f_items (paginated_fetch remote maxItems))) \<le> max 0 maxItems
   \<and> budgets_ok (nat maxItems) (f_pages (paginated_fetch remote maxItems))
   \<and> (\<forall>rq \<in> set (f_pages (paginated_fetch remote maxItems)).
         pr_size rq = min serverPageCap (pr_budget rq) \<and> 0 < pr_budget rq)
   \<and> int (sum_list (map pr_size (f_pages (paginated_fetch remote maxItems)))) \<le> max 0 maxItems
   \<and> list_all (sized maxCount)
        (requests (snd (progressiveSearch env fetch endpoint st ft maxCount sortOrder skip)))
   \<and> snd (handleListEmails_request env count) = (if truthy_num count then the count else 10)
   \<and> p_top (fst (handleListEmails_request env count))
       = min 50 (if truthy_num count then the count else 10)"
proof -
  let ?r = "paginated_fetch remote maxItems"
  have a: "length (f_items ?r) \<le> nat maxItems"
    using fetch_pages_items[of remote "nat maxItems" "\<lparr>f_items = [], f_error = None, f_pages = []\<rparr>"]
    by (simp add: paginated_fetch_def)
  obtain new where "f_pages ?r = [] @ new" "budgets_ok (nat maxItems) new"
    using fetch_pages_requests[of remote "nat maxItems" "\<lparr>f_items = [], f_error = None, f_pages = []\<rparr>"]
    by (auto simp: paginated_fetch_def)
  then have b: "budgets_ok (nat maxItems) (f_pages ?r)" by simp
  have c: "\<forall>rq \<in> set (f_pages ?r). pr_size rq = min serverPageCap (pr_budget rq) \<and> 0 < pr_budget rq"
    using budgets_ok_sizes[OF b] by blast
  have d: "sum_list (map pr_size (f_pages ?r)) \<le> nat maxItems"
    by (rule budgets_ok_sum[OF b])
  have e: "snd (handleListEmails_request env count) = (if truthy_num count then the count else 10)"
    by (simp add: handleListEmails_request_def Let_def)
  have f: "p_top (fst (handleListEmails_request env count))
             = min 50 (if truthy_num count then the count else 10)"
    by (simp add: handleListEmails_request_def Let_def)
  have a': "int (length (f_items ?r)) \<le> max 0 maxItems" using a by linarith
  have d': "int (sum_list (map pr_size (f_pages ?r))) \<le> max 0 maxItems" using d by linarith
  have g: "list_all (sized maxCount)
        (requests (snd (progressiveSearch env fetch endpoint st ft maxCount sortOrder skip)))"
    by (rule progressiveSearch_requests)
  from a' b c d' g e f show ?thesis by (intro conjI)
qed

theorem paginated_fetch_within_budget_witness:
  "f_items (paginated_fetch (remote_of (map showNat [0..<200])) 120)
     = map showNat [0..<120]
   \<and> f_pages (paginated_fetch (remote_of (map showNat [0..<200])) 120)
     = [\<lparr>pr_size = 50, pr_budget = 120\<rparr>, \<lparr>pr_size = 50, pr_budget = 70\<rparr>,
        \<lparr>pr_size = 20, pr_budget = 20\<rparr>]
   \<and> budgets_ok 120 (f_pages (paginated_fetch (remote_of (map showNat [0..<200])) 120))
   \<and> length (f_items (paginated_fetch remote_flood 120)) = 120
   \<and> f_pages (paginated_fetch remote_flood 120)
     = [\<lparr>pr_size = 50, pr_budget = 120\<rparr>, \<lparr>pr_size = 50, pr_budget = 70\<rparr>,
        \<lparr>pr_size = 20, pr_budget = 20\<rparr>]
   \<and> handleListEmails_request env0 None
     = (\<lparr>p_top = 10, p_select = ''id,subject'', p_orderby = ''receivedDateTime desc'',
         p_skip = None, p_search = None, p_filter = None\<rparr>, 10)
   \<and> handleListEmails_request env0 (Some 120)
     = (\<lparr>p_top = 50, p_select = ''id,subject'', p_orderby = ''receivedDateTime desc'',
         p_skip = None, p_search = None, p_filter = None\<rparr>, 120)"
proof -
  have "budgets_ok (nat 120) (f_pages (paginated_fetch (remote_of (map showNat [0..<200])) 120))"
    using paginated_fetch_within_budget[of "remote_of (map showNat [0..<200])" 120] by blast
  then have b: "budgets_ok 120 (f_pages (paginated_fetch (remote_of (map showNat [0..<200])) 120))"
    by simp
  have i: "f_items (paginated_fetch (remote_of (map showNat [0..<200])) 120)
     = map showNat [0..<120]" by code_simp
  have p: "f_pages (paginated_fetch (remote_of (map showNat [0..<200])) 120)
     = [\<lparr>pr_size = 50, pr_budget = 120\<rparr>, \<lparr>pr_size = 50, pr_budget = 70\<rparr>,
        \<lparr>pr_size = 20, pr_budget = 20\<rparr>]" by code_simp
  have fi: "length (f_items (paginated_fetch remote_flood 120)) = 120" by code_simp
  have fp: "f_pages (paginated_fetch remote_flood 120)
     = [\<lparr>pr_size = 50, pr_budget = 120\<rparr>, \<lparr>pr_size = 50, pr_budget = 70\<rparr>,
        \<lparr>pr_size = 20, pr_budget = 20\<rparr>]" by code_simp
  have h1: "handleListEmails_request env0 None
     = (\<lparr>p_top = 10, p_select = ''id,subject'', p_orderby = ''receivedDateTime desc'',
         p_skip = None, p_search = None, p_filter = None\<rparr>, 10)"
    by (simp add: handleListEmails_request_def truthy_num_def env0_def)
  have h2: "handleListEmails_request env0 (Some 120)
     = (\<lparr>p_top = 50, p_select = ''id,subject'', p_orderby = ''receivedDateTime desc'',
         p_skip = None, p_search = None, p_filter = None\<rparr>, 120)"
    by (simp add: handleListEmails_request_def truthy_num_def env0_def)
  from i p b fi fp h1 h2 show ?thesis by (intro conjI)
qed

section \<open>Properties of parseDate and addFilters\<close>

lemma digit_cases:
  "d < 10 \<Longrightarrow> d = 0 \<or> d = 1 \<or> d = 2 \<or> d = 3 \<or> d = 4 \<or> d = 5 \<or> d = 6 \<or> d = 7
     \<or> d = 8 \<or> d = (9::nat)"
  by arith

lemma lower_char_fix: "c \<notin> set upper_letters \<Longrightarrow> lower_char c = c"
  unfolding lower_char_def
  by (simp add: map_of_eq_None_iff[THEN iffD2] upper_letters_def lower_letters_def)

lemma toLowerCase_fix: "set s \<inter> set upper_letters = {} \<Longrightarrow> toLowerCase s = s"
  unfolding toLowerCase_def by (induction s) (simp_all add: lower_char_fix)

lemma digit_not_upper: "d < 10 \<Longrightarrow> digit_char d \<notin> set upper_letters"
  using digit_cases[of d] by (auto simp: digit_char_def upper_letters_def)

lemma digit_char_props:
  assumes "d < 10"
  shows "is_digit (digit_char d)" "\<not> is_space (digit_char d)"
    "lower_char (digit_char d) = digit_char d" "of_char (digit_char d) - 48 = d"
    "digit_char d \<noteq> CHR ''t''" "digit_char d \<noteq> CHR ''y''"
proof -
  show "lower_char (digit_char d) = digit_char d"
    by (rule lower_char_fix[OF digit_not_upper[OF assms]])
  show "is_digit (digit_char d)" "\<not> is_space (digit_char d)"
    "of_char (digit_char d) - 48 = d"
    "digit_char d \<noteq> CHR ''t''" "digit_char d \<noteq> CHR ''y''"
    using digit_cases[OF assms]
    by (auto simp: digit_char_def is_digit_def is_space_def)
qed

lemma showNat_digits: "list_all is_digit (showNat n) \<and> showNat n \<noteq> []"
proof (induction n rule: showNat.induct)
  case (1 n)
  show ?case
  proof (cases "n < 10")
    case True
    then show ?thesis by (simp add: showNat.simps[of n] digit_char_props)
  next
    case False
    then have "n mod 10 < 10" by simp
    with False 1 show ?thesis by (simp add: showNat.simps[of n] digit_char_props)
  qed
qed

lemma showNat_lower: "toLowerCase (showNat n) = showNat n"
proof (induction n rule: showNat.induct)
  case (1 n)
  show ?case
  proof (cases "n < 10")
    case True
    then show ?thesis by (simp add: showNat.simps[of n] digit_char_props toLowerCase_def)
  next
    case False
    then have "n mod 10 < 10" by simp
    with False 1 show ?thesis
      by (simp add: showNat.simps[of n] digit_char_props toLowerCase_def)
  qed
qed

lemma parseInt_snoc: "parseInt (ds @ [c]) = 10 * parseInt ds + (of_char c - 48)"
  by (simp add: parseInt_def)

lemma parseInt_showNat: "parseInt (showNat n) = n"
proof (induction n rule: showNat.induct)
  case (1 n)
  show ?case
  proof (cases "n < 10")
    case True
    then show ?thesis by (simp add: showNat.simps[of n] digit_char_props parseInt_def)
  next
    case False
    then have "n mod 10 < 10" by simp
    with False 1 show ?thesis
      by (simp add: showNat.simps[of n] digit_char_props parseInt_snoc)
  qed
qed

lemma showNat_hd: "\<not> is_space (hd (showNat n)) \<and> hd (showNat n) \<noteq> CHR ''t'' \<and> hd (showNat n) \<noteq> CHR ''y''"
proof (induction n rule: showNat.induct)
  case (1 n)
  show ?case
  proof (cases "n < 10")
    case True
    then show ?thesis by (simp add: showNat.simps[of n] digit_char_props)
  next
    case False
    with 1 showNat_digits[of "n div 10"] show ?thesis
      by (simp add: showNat.simps[of n])
  qed
qed

lemma takeWhile_digits:
  assumes "list_all is_digit ds" "\<not> is_digit c"
  shows "takeWhile is_digit (ds @ c # rest) = ds" "dropWhile is_digit (ds @ c # rest) = c # rest"
  using assms by (induction ds) auto

lemma trim_id:
  assumes "s \<noteq> []" "\<not> is_space (hd s)" "\<not> is_space (last s)"
  shows "trim s = s"
proof -
  from assms have a: "dropWhile is_space s = s" by (cases s) auto
  from assms have "rev s \<noteq> []" "\<not> is_space (hd (rev s))" by (simp_all add: hd_rev)
  then have "dropWhile is_space (rev s) = rev s" by (cases "rev s") auto
  with a show ?thesis by (simp add: trim_def)
qed

lemma relative_phrase_normal:
  assumes "unit \<in> {''day'', ''days'', ''week'', ''weeks''}"
  shows "trim (toLowerCase (relative_phrase n unit)) = relative_phrase n unit"
proof -
  have "toLowerCase unit = unit"
    using assms by (elim insertE emptyE) (simp_all add: toLowerCase_fix upper_letters_def)
  moreover have "toLowerCase '' '' = '' ''" "toLowerCase '' ago'' = '' ago''"
    by (simp_all add: toLowerCase_fix upper_letters_def)
  ultimately have low: "toLowerCase (relative_phrase n unit) = relative_phrase n unit"
    using showNat_lower[of n]
    by (simp add: relative_phrase_def toLowerCase_def)
  have ne: "relative_phrase n unit \<noteq> []" by (simp add: relative_phrase_def)
  have h: "hd (relative_phrase n unit) = hd (showNat n)"
    using showNat_digits[of n] by (simp add: relative_phrase_def)
  have l: "last (relative_phrase n unit) = CHR ''o''" by (simp add: relative_phrase_def)
  have a: "\<not> is_space (hd (relative_phrase n unit))" using h showNat_hd[of n] by simp
  have b: "\<not> is_space (last (relative_phrase n unit))" by (simp add: l is_space_def)
  show ?thesis
    unfolding low by (rule trim_id[OF ne a b])
qed

lemma relative_phrase_not_word:
  "relative_phrase n unit \<noteq> ''today''" "relative_phrase n unit \<noteq> ''yesterday''"
proof -
  have h: "hd (relative_phrase n unit) = hd (showNat n)"
    using showNat_digits[of n] by (simp add: relative_phrase_def)
  show "relative_phrase n unit \<noteq> ''today''"
  proof
    assume "relative_phrase n unit = ''today''"
    then have "hd (relative_phrase n unit) = CHR ''t''" by simp
    with h showNat_hd[of n] show False by simp
  qed
  show "relative_phrase n unit \<noteq> ''yesterday''"
  proof
    assume "relative_phrase n unit = ''yesterday''"
    then have "hd (relative_phrase n unit) = CHR ''y''" by simp
    with h showNat_hd[of n] show False by simp
  qed
qed

lemma relativeMatch_phrase:
  assumes "unit \<in> {''day'', ''days'', ''week'', ''weeks''}"
  shows "relativeMatch (relative_phrase n unit) = Some (showNat n, unit)"
proof -
  have sp: "\<not> is_digit CHR '' ''" by (simp add: is_digit_def)
  have tw: "takeWhile is_digit (relative_phrase n unit) = showNat n"
    and dw: "dropWhile is_digit (relative_phrase n unit) = '' '' @ unit @ '' ago''"
    using takeWhile_digits[OF conjunct1[OF showNat_digits] sp, of n "unit @ '' ago''"]
    by (simp_all add: relative_phrase_def)
  have r: "dropWhile is_space ('' '' @ unit @ '' ago'') = unit @ '' ago''"
    using assms by (elim insertE emptyE) (simp_all add: is_space_def)
  have ne: "showNat n \<noteq> []" using showNat_digits[of n] by simp
  have u: "unit = ''day'' \<or> unit = ''days'' \<or> unit = ''week'' \<or> unit = ''weeks''"
    using assms by simp
  have m: "match_unit (showNat n) (unit @ '' ago'')
             [''day'', ''days'', ''week'', ''weeks'', ''month'', ''months'']
           = Some (showNat n, unit)"
    using u by (elim disjE) (simp_all add: is_space_def)
  have dw': "dropWhile is_space (dropWhile is_digit (relative_phrase n unit)) = unit @ '' ago''"
    by (simp only: dw r)
  show ?thesis
    unfolding relativeMatch_def Let_def tw dw' m using ne by simp
qed

text \<open>
  \<open>YearFromDay\<close> is the year of ECMAScript's \<open>YearFromTime\<close>: a year has 365 or 366 days, and
  the day \<open>d\<close> lies in the year \<open>YearFromDay d\<close>, from its first day up to the day before the
  first day of the next year.
\<close>

lemma div_succ:
  fixes x m :: int
  assumes "0 < m"
  shows "(x + 1) div m = x div m + (if (x + 1) mod m = 0 then 1 else 0)"
proof -
  let ?q = "x div m" and ?r = "x mod m"
  have r: "0 \<le> ?r" "?r < m" using assms by simp_all
  have x: "x + 1 = m * ?q + (?r + 1)" by simp
  show ?thesis
  proof (cases "?r + 1 < m")
    case True
    have "(x + 1) div m = ?q" using x r True by (intro int_div_pos_eq[of _ _ _ "?r + 1"]) simp_all
    moreover have "(x + 1) mod m = ?r + 1" using x r True by (intro int_mod_pos_eq[of _ _ "?q"]) simp_all
    ultimately show ?thesis using r by simp
  next
    case False
    with r have e: "?r + 1 = m" by simp
    have "x + 1 = m * ?q + m" using x unfolding e .
    then have x': "x + 1 = m * (?q + 1) + 0" by (simp add: algebra_simps)
    have "(x + 1) div m = ?q + 1" using assms by (intro int_div_pos_eq[OF x']) simp_all
    moreover have "(x + 1) mod m = 0" using assms by (intro int_mod_pos_eq[OF x']) simp_all
    ultimately show ?thesis by simp
  qed
qed

lemma mod_shift:
  "((y - 1968) mod 4 = 0) = (y mod 4 = (0::int))"
  "((y - 1900) mod 100 = 0) = (y mod 100 = (0::int))"
  "((y - 1600) mod 400 = 0) = (y mod 400 = (0::int))"
proof -
  have "(4::int) dvd 1968" "(100::int) dvd 1900" "(400::int) dvd 1600" by simp_all
  then show "((y - 1968) mod 4 = 0) = (y mod 4 = (0::int))"
    "((y - 1900) mod 100 = 0) = (y mod 100 = (0::int))"
    "((y - 1600) mod 400 = 0) = (y mod 400 = (0::int))"
    by (simp_all only: mod_eq_0_iff_dvd dvd_diff_left_iff)
qed

lemma mod_400_100: "y mod 400 = 0 \<Longrightarrow> y mod 100 = (0::int)"
proof -
  assume "y mod 400 = 0"
  then have "400 dvd y" by (simp add: mod_eq_0_iff_dvd)
  moreover have "(100::int) dvd 400" by simp
  ultimately have "100 dvd y" by (rule dvd_trans[rotated])
  then show ?thesis by (simp add: mod_eq_0_iff_dvd)
qed

lemma mod_100_4: "y mod 100 = 0 \<Longrightarrow> y mod 4 = (0::int)"
proof -
  assume "y mod 100 = 0"
  then have "100 dvd y" by (simp add: mod_eq_0_iff_dvd)
  moreover have "(4::int) dvd 100" by simp
  ultimately have "4 dvd y" by (rule dvd_trans[rotated])
  then show ?thesis by (simp add: mod_eq_0_iff_dvd)
qed

lemma DaysInYear: "DayFromYear (y + 1) - DayFromYear y = (if InLeapYear y then 366 else 365)"
proof -
  have a: "(y + 1 - 1969) div 4 = (y - 1969) div 4 + (if y mod 4 = 0 then 1 else 0)"
    using div_succ[of 4 "y - 1969"] mod_shift(1)[of y] by (simp add: algebra_simps)
  have b: "(y + 1 - 1901) div 100 = (y - 1901) div 100 + (if y mod 100 = 0 then 1 else 0)"
    using div_succ[of 100 "y - 1901"] mod_shift(2)[of y] by (simp add: algebra_simps)
  have c: "(y + 1 - 1601) div 400 = (y - 1601) div 400 + (if y mod 400 = 0 then 1 else 0)"
    using div_succ[of 400 "y - 1601"] mod_shift(3)[of y] by (simp add: algebra_simps)
  show ?thesis
    unfolding DayFromYear_def InLeapYear_def a b c
    using mod_400_100[of y] mod_100_4[of y] by auto
qed

lemma DayFromYear_cycles:
  assumes "0 \<le> b" "b \<le> 3" "0 \<le> c" "c \<le> 24" "0 \<le> e" "e \<le> 3"
  shows "DayFromYear (1601 + 400 * a + 100 * b + 4 * c + e)
           = 146097 * a + 36524 * b + 1461 * c + 365 * e - 134774"
proof -
  let ?y = "1601 + 400 * a + 100 * b + 4 * c + e"
  have d4: "(?y - 1969) div 4 = 100 * a + 25 * b + c - 92"
    using assms by (intro int_div_pos_eq[of _ _ _ e]) simp_all
  have d100: "(?y - 1901) div 100 = 4 * a + b - 3"
    using assms by (intro int_div_pos_eq[of _ _ _ "4 * c + e"]) simp_all
  have d400: "(?y - 1601) div 400 = a"
    using assms by (intro int_div_pos_eq[of _ _ _ "100 * b + 4 * c + e"]) simp_all
  show ?thesis unfolding DayFromYear_def d4 d100 d400 by simp
qed

lemma YearFromDay_bounds:
  "DayFromYear (YearFromDay d) \<le> d \<and> d < DayFromYear (YearFromDay d + 1)"
proof -
  define n where "n = d + 134774"
  define q400 where "q400 = n div 146097"
  define r400 where "r400 = n mod 146097"
  define q100 where "q100 = min 3 (r400 div 36524)"
  define r100 where "r100 = r400 - q100 * 36524"
  define q4 where "q4 = r100 div 1461"
  define r4 where "r4 = r100 mod 1461"
  define q1 where "q1 = min 3 (r4 div 365)"
  define y where "y = 1601 + 400 * q400 + 100 * q100 + 4 * q4 + q1"
  have y: "YearFromDay d = y"
    by (simp add: YearFromDay_def Let_def y_def q1_def r4_def q4_def r100_def q100_def r400_def
          q400_def n_def)
  have n: "n = 146097 * q400 + r400" by (simp add: q400_def r400_def)
  have r400: "0 \<le> r400" "r400 < 146097" by (simp_all add: r400_def)
  have q100: "0 \<le> q100" "q100 \<le> 3" using r400 by (simp_all add: q100_def)
  have q100le: "q100 * 36524 \<le> r400"
  proof -
    have "q100 \<le> r400 div 36524" by (simp add: q100_def)
    then have "q100 * 36524 \<le> (r400 div 36524) * 36524" by simp
    also have "\<dots> \<le> r400" using r400 by (simp add: minus_mod_eq_div_mult[symmetric])
    finally show ?thesis .
  qed
  have r100: "0 \<le> r100" "r100 \<le> 36524" "q100 < 3 \<longrightarrow> r100 < 36524"
  proof -
    show "0 \<le> r100" using q100le by (simp add: r100_def)
    show "q100 < 3 \<longrightarrow> r100 < 36524"
    proof
      assume "q100 < 3"
      then have "q100 = r400 div 36524" by (simp add: q100_def min_def split: if_splits)
      then have "r100 = r400 mod 36524" by (simp add: r100_def minus_div_mult_eq_mod)
      then show "r100 < 36524" by simp
    qed
    then show "r100 \<le> 36524" using q100 r400 by (cases "q100 < 3") (simp_all add: r100_def)
  qed
  have q4: "0 \<le> q4" "q4 \<le> 24"
  proof -
    show "0 \<le> q4" using r100 by (simp add: q4_def)
    have "r100 div 1461 \<le> 36524 div 1461" using r100(2) by (rule zdiv_mono1) simp
    then show "q4 \<le> 24" by (simp add: q4_def)
  qed
  have r100eq: "r100 = 1461 * q4 + r4" by (simp add: q4_def r4_def)
  have r4: "0 \<le> r4" "r4 < 1461" by (simp_all add: r4_def)
  have q1: "0 \<le> q1" "q1 \<le> 3" using r4 by (simp_all add: q1_def)
  have q1le: "365 * q1 \<le> r4"
  proof -
    have "q1 \<le> r4 div 365" by (simp add: q1_def)
    then have "365 * q1 \<le> 365 * (r4 div 365)" by simp
    also have "\<dots> \<le> r4" using r4 by (simp add: minus_mod_eq_mult_div[symmetric])
    finally show ?thesis .
  qed
  have dfy: "DayFromYear y = 146097 * q400 + 36524 * q100 + 1461 * q4 + 365 * q1 - 134774"
    unfolding y_def by (rule DayFromYear_cycles[OF q100 q4 q1])
  have deq: "d - DayFromYear y = r4 - 365 * q1"
    using n r100eq by (simp add: dfy n_def r100_def)
  have low: "DayFromYear y \<le> d" using deq q1le by linarith
  have up: "r4 - 365 * q1 < (if InLeapYear y then 366 else 365)"
  proof (cases "q1 < 3")
    case True
    then have "q1 = r4 div 365" by (simp add: q1_def min_def split: if_splits)
    then have "r4 - 365 * q1 = r4 mod 365" by (simp add: minus_mult_div_eq_mod)
    then have "r4 - 365 * q1 < 365" using pos_mod_bound[of 365 r4] by linarith
    then show ?thesis by (cases "InLeapYear y") simp_all
  next
    case False
    with q1 have q13: "q1 = 3" by simp
    show ?thesis
    proof (cases "r4 = 1460")
      case False
      with r4 q13 show ?thesis by simp
    next
      case True
      have y4: "y = 4 * (401 + 100 * q400 + 25 * q100 + q4)" by (simp add: y_def q13)
      then have m4: "y mod 4 = 0" by simp
      have leap: "InLeapYear y"
      proof (cases "q4 = 24")
        case q24: True
        have "r100 = 36524" using True q24 r100eq by simp
        with r100(3) q100 have "q100 = 3" by force
        then have "y = 400 * (5 + q400)" using q24 by (simp add: y_def q13)
        then have "y mod 400 = 0" by simp
        then show ?thesis by (simp add: InLeapYear_def)
      next
        case False
        with q4 have q4b: "q4 \<le> 23" by simp
        have "y mod 100 = 4 + 4 * q4"
        proof (rule int_mod_pos_eq[of _ _ "16 + 4 * q400 + q100"])
          show "y = 100 * (16 + 4 * q400 + q100) + (4 + 4 * q4)" by (simp add: y_def q13)
          show "0 \<le> 4 + 4 * q4" using q4 by simp
          show "4 + 4 * q4 < 100" using q4b by simp
        qed
        then have "y mod 100 \<noteq> 0" using q4 by simp
        with m4 show ?thesis by (simp add: InLeapYear_def)
      qed
      with True q13 show ?thesis by simp
    qed
  qed
  have "d < DayFromYear (y + 1)" using DaysInYear[of y] deq up by (simp split: if_splits)
  with low show ?thesis unfolding y by simp
qed

lemma MonthFromTime_range: "0 \<le> MonthFromTime t \<and> MonthFromTime t \<le> 11"
proof -
  have "length (filter (\<lambda>s. s \<le> DayWithinYear t) (tl (month_starts (InLeapYear (YearFromTime t)))))
          \<le> length (tl (month_starts (InLeapYear (YearFromTime t))))"
    by (rule length_filter_le)
  also have "\<dots> = 11" by (simp add: month_starts_def)
  finally show ?thesis by (simp add: MonthFromTime_def)
qed

lemma MakeDay_shift:
  "MakeDay (YearFromTime t) (MonthFromTime t) (DateFromTime t - k) = Day t - k"
proof -
  have r: "0 \<le> MonthFromTime t" "MonthFromTime t \<le> 11" using MonthFromTime_range by simp_all
  then have "MonthFromTime t div 12 = 0" "MonthFromTime t mod 12 = MonthFromTime t" by simp_all
  then show ?thesis
    by (simp add: MakeDay_def DateFromTime_def DayWithinYear_def Let_def)
qed

lemma day_split: "Day t * msPerDay + TimeWithinDay t = t"
  by (simp add: Day_def TimeWithinDay_def)

text \<open>
  What \<open>parseDate\<close> yields for the relative forms. The date object is moved to the same
  local time of day \<open>k\<close> days earlier (\<open>days_before\<close>) and then to the start of that local day
  (\<open>local_midnight\<close>), each step through the offset of local time at the instant concerned;
  when either step leaves the range of \<open>Date\<close> the object is invalid and \<open>toISOString\<close>
  throws. With a fixed offset the result is the clock reading less \<open>k\<close> days, truncated to
  local midnight.
\<close>

lemma setDate_shift:
  "setDate tza (Some t0) (map_option (\<lambda>d. d - k) (getDate tza (Some t0)))
     = TimeClip (days_before tza k t0)"
proof -
  let ?t = "LocalTime tza t0"
  have "MakeDate (MakeDay (YearFromTime ?t) (MonthFromTime ?t) (DateFromTime ?t - k))
          (TimeWithinDay ?t) = (Day ?t - k) * msPerDay + TimeWithinDay ?t"
    by (simp add: MakeDate_def MakeDay_shift)
  also have "\<dots> = ?t - k * msPerDay"
    using day_split[of ?t] by (simp add: algebra_simps)
  finally show ?thesis
    by (simp add: setDate_def getDate_def Let_def days_before_def)
qed

lemma setHours0_midnight: "setHours0 tza (Some t) = TimeClip (local_midnight tza t)"
  by (simp add: setHours0_def local_midnight_def)

lemma clipped_midnight:
  "toISOString (setHours0 tza (TimeClip s))
     = (if \<bar>s\<bar> \<le> maxTime \<and> \<bar>local_midnight tza s\<bar> \<le> maxTime
        then Inr (iso_string (local_midnight tza s)) else Inl RangeError)"
proof (cases "\<bar>s\<bar> \<le> maxTime")
  case True
  then have "TimeClip s = Some s" by (simp add: TimeClip_def)
  then show ?thesis
    using True by (simp add: setHours0_midnight toISOString_def) (simp add: TimeClip_def)
next
  case False
  then have "TimeClip s = None" by (simp add: TimeClip_def)
  then show ?thesis using False by (simp add: setHours0_def toISOString_def)
qed

lemma fixed_offset_days_before: "days_before (\<lambda>t isUTC. c) k t = t - k * msPerDay"
  by (simp add: days_before_def UTC_def LocalTime_def)

lemma fixed_offset_local_midnight:
  "local_midnight (\<lambda>t isUTC. c) t = Day (t + c) * msPerDay - c"
  by (simp add: local_midnight_def UTC_def LocalTime_def MakeDate_def)

lemma fixed_offset_midnight_bounds:
  "t - msPerDay < local_midnight (\<lambda>t isUTC. c) t \<and> local_midnight (\<lambda>t isUTC. c) t \<le> t"
proof -
  have e: "(t + c) div msPerDay * msPerDay = (t + c) - (t + c) mod msPerDay"
    by (simp add: minus_mod_eq_div_mult)
  have "0 \<le> (t + c) mod msPerDay" "(t + c) mod msPerDay < msPerDay"
    by (simp_all add: msPerDay_def)
  then show ?thesis unfolding fixed_offset_local_midnight Day_def e by linarith
qed

lemma days_before_upper:
  assumes "\<forall>t isUTC. \<bar>tza t isUTC\<bar> \<le> msPerDay"
  shows "days_before tza k t \<le> t - k * msPerDay + 2 * msPerDay"
proof -
  have a: "\<bar>tza t True\<bar> \<le> msPerDay" using assms by blast
  have b: "\<bar>tza (t + tza t True - k * msPerDay) False\<bar> \<le> msPerDay" using assms by blast
  show ?thesis using a b by (simp add: days_before_def UTC_def LocalTime_def)
qed

lemma parseDate_phrase_shift:
  assumes "0 \<le> clock env" "clock env \<le> maxTime"
    and "unit \<in> {''day'', ''days'', ''week'', ''weeks''}"
    and "k = (if unit \<in> {''day'', ''days''} then int n else int n * 7)"
  shows "parseDate env (Some (relative_phrase n unit))
           = map_sum id Some
               (toISOString (setHours0 (LocalTZA env)
                  (TimeClip (days_before (LocalTZA env) k (clock env)))))"
proof -
  let ?p = "relative_phrase n unit"
  have ne: "truthy_str (Some ?p)" by (simp add: truthy_str_def relative_phrase_def)
  have norm: "trim (toLowerCase ?p) = ?p" using assms(3) by (rule relative_phrase_normal)
  have mt: "relativeMatch ?p = Some (showNat n, unit)" using assms(3) by (rule relativeMatch_phrase)
  have now: "TimeClip (clock env) = Some (clock env)"
    using assms(1,2) by (simp add: TimeClip_def maxTime_def)
  have u: "unit = ''day'' \<or> unit = ''days'' \<or> unit = ''week'' \<or> unit = ''weeks''"
    using assms(3) by simp
  have sel: "(if startsWith unit ''day'' then
                 setDate (LocalTZA env) (TimeClip (clock env))
                   (map_option (\<lambda>d. d - int (parseInt (showNat n))) (getDate (LocalTZA env) (TimeClip (clock env))))
               else if startsWith unit ''week'' then
                 setDate (LocalTZA env) (TimeClip (clock env))
                   (map_option (\<lambda>d. d - int (parseInt (showNat n)) * 7) (getDate (LocalTZA env) (TimeClip (clock env))))
               else if startsWith unit ''month'' then
                 setMonth (LocalTZA env) (TimeClip (clock env))
                   (map_option (\<lambda>m. m - int (parseInt (showNat n))) (getMonth (LocalTZA env) (TimeClip (clock env))))
               else TimeClip (clock env))
             = TimeClip (days_before (LocalTZA env) k (clock env))"
    using u assms(4)
    by (elim disjE) (simp_all add: startsWith_def parseInt_showNat now setDate_shift)
  show ?thesis
    unfolding parseDate_def using ne relative_phrase_not_word[of n unit]
    by (simp only: norm mt sel Let_def option.sel if_False if_True not_True_eq_False option.case prod.case simp_thms)
qed

lemma parseDate_phrase:
  assumes "0 \<le> clock env" "clock env \<le> maxTime"
    and "unit \<in> {''day'', ''days'', ''week'', ''weeks''}"
    and "k = (if unit \<in> {''day'', ''days''} then int n else int n * 7)"
    and "d = days_before (LocalTZA env) k (clock env)"
  shows "parseDate env (Some (relative_phrase n unit))
           = (if \<bar>d\<bar> \<le> maxTime \<and> \<bar>local_midnight (LocalTZA env) d\<bar> \<le> maxTime
              then Inr (Some (iso_string (local_midnight (LocalTZA env) d)))
              else Inl RangeError)"
  by (simp add: parseDate_phrase_shift[OF assms(1-4)] clipped_midnight assms(5))

lemma parseDate_today:
  assumes "0 \<le> clock env" "clock env \<le> maxTime"
  shows "parseDate env (Some ''today'')
           = (if \<bar>local_midnight (LocalTZA env) (clock env)\<bar> \<le> maxTime
              then Inr (Some (iso_string (local_midnight (LocalTZA env) (clock env))))
              else Inl RangeError)"
proof -
  have now: "\<bar>clock env\<bar> \<le> maxTime" using assms by simp
  have norm: "trim (toLowerCase ''today'') = ''today''"
    by (simp add: trim_def toLowerCase_fix upper_letters_def is_space_def)
  show ?thesis
    by (simp add: parseDate_def truthy_str_def norm clipped_midnight now Let_def)
qed

lemma parseDate_yesterday:
  assumes "0 \<le> clock env" "clock env \<le> maxTime"
    and "d = days_before (LocalTZA env) 1 (clock env)"
  shows "parseDate env (Some ''yesterday'')
           = (if \<bar>d\<bar> \<le> maxTime \<and> \<bar>local_midnight (LocalTZA env) d\<bar> \<le> maxTime
              then Inr (Some (iso_string (local_midnight (LocalTZA env) d)))
              else Inl RangeError)"
proof -
  have now: "TimeClip (clock env) = Some (clock env)"
    using assms by (simp add: TimeClip_def maxTime_def)
  have norm: "trim (toLowerCase ''yesterday'') = ''yesterday''"
    by (simp add: trim_def toLowerCase_fix upper_letters_def is_space_def)
  have sh: "setDate (LocalTZA env) (Some (clock env))
              (map_option (\<lambda>d. d - 1) (getDate (LocalTZA env) (Some (clock env))))
            = TimeClip d"
    using setDate_shift[of "LocalTZA env" "clock env" 1] assms(3) by simp
  show ?thesis
    by (simp add: parseDate_def truthy_str_def norm now sh clipped_midnight Let_def)
qed

lemma parseDate_unrecognised:
  assumes "trim (toLowerCase s) \<noteq> ''today''" "trim (toLowerCase s) \<noteq> ''yesterday''"
    and "relativeMatch (trim (toLowerCase s)) = None"
    and "dateParse env s = None \<or> (\<exists>t. dateParse env s = Some t \<and> maxTime < \<bar>t\<bar>)"
  shows "parseDate env (Some s) = Inr None"
  using assms by (auto simp add: parseDate_def Let_def TimeClip_def)

lemma date_condition_dropped:
  assumes "parseDate env bound = Inr None"
  shows "date_condition env pre bound = Inr []"
  using assms by (simp add: date_condition_def truthy_str_def)

lemma date_condition_None: "date_condition env pre None = Inr []"
  by (simp add: date_condition_def truthy_str_def)

lemma addFilters_drops_before:
  assumes "parseDate env (before ft) = Inr None"
  shows "addFilters env ps ft = addFilters env ps (ft\<lparr>before := None\<rparr>)"
  by (simp add: addFilters_def date_condition_dropped[OF assms] date_condition_None)

lemma addFilters_drops_after:
  assumes "parseDate env (after ft) = Inr None"
  shows "addFilters env ps ft = addFilters env ps (ft\<lparr>after := None\<rparr>)"
  by (cases "date_condition env ''receivedDateTime lt '' (before ft)")
     (simp_all add: addFilters_def date_condition_dropped[OF assms] date_condition_None)

lemma two_weeks_phrase: "relative_phrase 2 ''weeks'' = ''2 weeks ago''"
  by (simp add: relative_phrase_def showNat.simps digit_char_def)

lemma billion_days_phrase: "relative_phrase 1000000000 ''days'' = ''1000000000 days ago''"
  by (simp add: relative_phrase_def showNat.simps digit_char_def)

lemma zone0_bounded: "\<bar>zone0 t isUTC\<bar> \<le> msPerDay"
  by (simp add: zone0_def msPerDay_def Let_def)


text \<open>
  Examples: a shift across the end of daylight saving, and an unparseable bound, which
  \<open>addFilters\<close> drops.
\<close>

lemma parseDate_across_daylight_saving:
  "parseDate (env0\<lparr>clock := 1699000000000\<rparr>) (Some ''2 weeks ago'')
     = Inr (Some ''2023-10-19T22:00:00.000Z'')"
proof -
  let ?env = "env0\<lparr>clock := 1699000000000\<rparr>"
  have h: "0 \<le> clock ?env" "clock ?env \<le> maxTime" by (simp_all add: maxTime_def)
  have u: "''weeks'' \<in> {''day'', ''days'', ''week'', ''weeks''}" by simp
  have k: "(14::int) = (if ''weeks'' \<in> {''day'', ''days''} then int 2 else int 2 * 7)" by simp
  have d: "days_before (LocalTZA ?env) 14 (clock ?env) = 1697786800000"
    by (simp add: env0_def zone0_def days_before_def UTC_def LocalTime_def msPerDay_def)
  have m: "local_midnight (LocalTZA env0) 1697786800000 = 1697752800000"
    by (simp add: env0_def zone0_def local_midnight_def UTC_def LocalTime_def MakeDate_def
        Day_def msPerDay_def)
  have i: "iso_string 1697752800000 = ''2023-10-19T22:00:00.000Z''" by code_simp
  from parseDate_phrase[OF h u k d[symmetric]]
  show ?thesis by (simp add: m i two_weeks_phrase maxTime_def)
qed

lemma parseDate_phrase_fixed_offset:
  assumes "0 \<le> clock env" "clock env \<le> maxTime"
    and "LocalTZA env = (\<lambda>t isUTC. c)"
    and "unit \<in> {''day'', ''days'', ''week'', ''weeks''}"
    and "k = (if unit \<in> {''day'', ''days''} then int n else int n * 7)"
    and "- maxTime \<le> local_midnight (LocalTZA env) (clock env - k * msPerDay)"
  shows "parseDate env (Some (relative_phrase n unit))
           = Inr (Some (iso_string (local_midnight (LocalTZA env) (clock env - k * msPerDay))))"
proof -
  let ?d = "clock env - k * msPerDay"
  have d: "?d = days_before (LocalTZA env) k (clock env)"
    by (simp add: assms(3) fixed_offset_days_before)
  have "0 \<le> k" using assms(5) by simp
  then have "0 \<le> k * msPerDay" by (simp add: msPerDay_def)
  then have up: "?d \<le> maxTime" using assms(2) by linarith
  have b: "?d - msPerDay < local_midnight (LocalTZA env) ?d" "local_midnight (LocalTZA env) ?d \<le> ?d"
    using fixed_offset_midnight_bounds[of ?d c] by (simp_all add: assms(3))
  have lo: "- maxTime \<le> ?d" using b(2) assms(6) by linarith
  have r1: "\<bar>?d\<bar> \<le> maxTime" using up lo by simp
  have r2: "\<bar>local_midnight (LocalTZA env) ?d\<bar> \<le> maxTime" using assms(6) b(2) up by simp
  show ?thesis
    using parseDate_phrase[OF assms(1,2,4,5) d] r1 r2 by simp
qed

lemma parseDate_unparseable_dropped:
  "parseDate env0 (Some ''next tuesday'') = Inr None
   \<and> addFilters env0 (base_params env0 10 ''receivedDateTime desc'' 0)
        (unread_only\<lparr>before := Some ''next tuesday''\<rparr>)
      = Inr ((base_params env0 10 ''receivedDateTime desc'' 0)\<lparr>p_filter := Some ''isRead eq false''\<rparr>)"
proof -
  have u: "trim (toLowerCase ''next tuesday'') \<noteq> ''today''"
    "trim (toLowerCase ''next tuesday'') \<noteq> ''yesterday''"
    "relativeMatch (trim (toLowerCase ''next tuesday'')) = None"
    by (simp_all add: toLowerCase_fix upper_letters_def trim_def is_space_def relativeMatch_def
        is_digit_def)
  have p: "dateParse env0 ''next tuesday'' = None" by (simp add: env0_def)
  have c: "parseDate env0 (Some ''next tuesday'') = Inr None"
    using u p by (intro parseDate_unrecognised) simp_all
  then have c': "parseDate env0 (before (unread_only\<lparr>before := Some ''next tuesday''\<rparr>)) = Inr None"
    by simp
  have "addFilters env0 (base_params env0 10 ''receivedDateTime desc'' 0)
          (unread_only\<lparr>before := Some ''next tuesday''\<rparr>)
        = addFilters env0 (base_params env0 10 ''receivedDateTime desc'' 0)
            (unread_only\<lparr>before := Some ''next tuesday''\<rparr>\<lparr>before := None\<rparr>)"
    by (rule addFilters_drops_before[OF c'])
  also have "\<dots> = Inr ((base_params env0 10 ''receivedDateTime desc'' 0)\<lparr>p_filter := Some ''isRead eq false''\<rparr>)"
    by (simp add: addFilters_def unread_only_def date_condition_None truthy_str_def)
  finally show ?thesis using c by simp
qed

text \<open>
  C9 does not hold of the code for every \<open>n\<close>. For a clock reading since the epoch and
  offsets of local time of at most a day, \<open>parseDate\<close> applied to \<open>n day ago\<close>, \<open>n days ago\<close>,
  \<open>n week ago\<close> or \<open>n weeks ago\<close> with \<open>n\<close> at least 200000003 neither yields a date nor
  \<open>null\<close>: the shifted date is below the range of \<open>Date\<close>, \<open>setDate\<close> leaves the object
  invalid, and \<open>toISOString\<close> throws a RangeError.
\<close>

theorem parseDate_relative_RangeError:
  assumes "0 \<le> clock env" and "clock env \<le> maxTime"
    and "\<forall>t isUTC. \<bar>LocalTZA env t isUTC\<bar> \<le> msPerDay"
    and "unit \<in> {''day'', ''days'', ''week'', ''weeks''}"
    and "200000003 \<le> n"
  shows "parseDate env (Some (relative_phrase n unit)) = Inl RangeError"
proof -
  define k where "k = (if unit \<in> {''day'', ''days''} then int n else int n * 7)"
  define d where "d = days_before (LocalTZA env) k (clock env)"
  have "int n \<le> k" by (simp add: k_def)
  with assms(5) have "200000003 \<le> k" by linarith
  then have "200000003 * msPerDay \<le> k * msPerDay" by (simp add: msPerDay_def)
  moreover have "d \<le> clock env - k * msPerDay + 2 * msPerDay"
    unfolding d_def by (rule days_before_upper[OF assms(3)])
  ultimately have "d < - maxTime" using assms(2) by (simp add: maxTime_def msPerDay_def)
  then have "\<not> \<bar>d\<bar> \<le> maxTime" by (simp add: maxTime_def)
  then show ?thesis
    using parseDate_phrase[OF assms(1,2,4) k_def d_def] by simp
qed

theorem parseDate_relative_RangeError_witness:
  "0 \<le> clock env0 \<and> clock env0 \<le> maxTime
   \<and> parseDate env0 (Some ''1000000000 days ago'') = Inl RangeError"
proof -
  have h: "0 \<le> clock env0" "clock env0 \<le> maxTime" by (simp_all add: env0_def maxTime_def)
  have z: "\<forall>t isUTC. \<bar>LocalTZA env0 t isUTC\<bar> \<le> msPerDay"
    by (simp add: env0_def zone0_bounded)
  have u: "''days'' \<in> {''day'', ''days'', ''week'', ''weeks''}" by simp
  have n: "200000003 \<le> (1000000000::nat)" by simp
  from parseDate_relative_RangeError[OF h z u n]
  show ?thesis using h by (simp add: billion_days_phrase)
qed

section \<open>Properties of resolveFolderPath\<close>

lemma getFolderIdByName_error:
  "getFolderIdByName_try api folderName mailbox = Inl e \<Longrightarrow>
     getFolderIdByName api folderName mailbox = None"
  by (simp add: getFolderIdByName_def)

lemma inbox_prop:
  "get_prop (getWellKnownFolders mailbox) ''inbox''
     = Some (Str (getMailboxBasePath mailbox @ ''/mailFolders/inbox/messages''))"
  by (simp add: get_prop_def getWellKnownFolders_def Let_def)

lemma not_well_known_prop:
  assumes "k \<notin> set well_known_names" "k \<notin> set object_prototype_names"
  shows "get_prop (getWellKnownFolders mailbox) k = None"
  using assms
  by (simp add: get_prop_def getWellKnownFolders_def well_known_names_def Let_def)

text \<open>
  For every other name the fallback is as C10 says: a name that is neither well-known nor
  inherited and that the lookup does not resolve (also when the lookup throws) gives the
  inbox path of the mailbox.
\<close>

lemma resolveFolderPath_fallback:
  assumes "toLowerCase name \<notin> set well_known_names"
    and "toLowerCase name \<notin> set object_prototype_names"
    and "\<not> truthy_str (getFolderIdByName api name mailbox)"
  shows "resolveFolderPath api (Some name) mailbox
           = Some (Str (getMailboxBasePath mailbox @ ''/mailFolders/inbox/messages''))"
proof (cases "name = []")
  case True
  then show ?thesis by (simp add: resolveFolderPath_def truthy_str_def inbox_prop Let_def)
next
  case False
  have "get_prop (getWellKnownFolders mailbox) (toLowerCase name) = None"
    using assms(1,2) by (rule not_well_known_prop)
  then show ?thesis
    using False assms(3)
    by (simp add: resolveFolderPath_def truthy_str_def truthy_prop_def inbox_prop Let_def)
qed

text \<open>
  C10 fails on the code for a folder name that every object inherits from
  \<open>Object.prototype\<close>: \<open>constructor\<close> is not one of the six well-known names, no folder of
  that name can be looked up, and yet \<open>resolveFolderPath\<close> returns the inherited member
  \<open>wellKnownFolders['constructor']\<close>, which is not a path, instead of the inbox path.
\<close>

theorem resolveFolderPath_inherited_name:
  "resolveFolderPath api (Some ''constructor'') None = Some (Inherited ''constructor'')
   \<and> ''constructor'' \<notin> set well_known_names
   \<and> getFolderIdByName api_down ''constructor'' None = None
   \<and> get_prop (getWellKnownFolders None) ''inbox'' = Some (Str ''me/mailFolders/inbox/messages'')"
  by (simp add: resolveFolderPath_def truthy_str_def truthy_prop_def get_prop_def
        getWellKnownFolders_def getMailboxBasePath_def toLowerCase_def lower_char_def upper_letters_def lower_letters_def
        object_prototype_names_def well_known_names_def getFolderIdByName_def
        getFolderIdByName_try_def api_down_def Let_def)


end
